theory Spec2Isabelle
  imports Complex_Main "HOL-Library.Multiset"
begin

section \<open>TubeProphet: videos, their projection in time, and the report of rank changes\<close>

text \<open>
  The embedding follows \<^verbatim>\<open>src/TubeProphet.py\<close>. A \<^verbatim>\<open>Video\<close> object is a record,
  the objects live in a store (references to records) because \<^verbatim>\<open>track_changes\<close> sorts a
  list of references and mutates the objects behind them, and every exception of the
  source is a value of \<open>py_error\<close>.

  Numbers: \<^verbatim>\<open>views\<close> arrives as a Python \<^verbatim>\<open>int\<close>; \<^verbatim>\<open>avg_views\<close> is a \<^verbatim>\<open>float\<close>, the result
  of the true division \<^verbatim>\<open>views / days_up\<close>, and from the first \<^verbatim>\<open>fast_forward\<close> on
  \<^verbatim>\<open>views\<close> is a \<^verbatim>\<open>float\<close> too. Both fields are rationals here (every finite
  \<^verbatim>\<open>float\<close> is one), and every operation that Python does in floating point returns
  the exact result rounded to the nearest \<^verbatim>\<open>float\<close>.
\<close>

subsection \<open>Errors\<close>

datatype py_error = ZeroDivisionError | OverflowError | IndexError | AttributeError

subsection \<open>Floating point\<close>

text \<open>
  A Python \<^verbatim>\<open>float\<close> is an IEEE 754 binary64 number: 53 significant bits, and every
  operation rounds its exact result to the nearest such number, to the one with an even
  last bit when two are equally near. \<open>round_half_even\<close> is that rounding to an integer.
\<close>

definition round_half_even :: "rat \<Rightarrow> int" where
  "round_half_even q =
     (let f = \<lfloor>q\<rfloor>; d = q - of_int f
      in if d < 1 / 2 then f else if 1 / 2 < d then f + 1 else if even f then f else f + 1)"

text \<open>
  The binary exponent of a positive number: the \<open>e\<close> with \<open>2 ^ e \<le> x < 2 ^ (e + 1)\<close>,
  found by halving or doubling \<open>x\<close> into the interval from 1 to 2.
\<close>

function ilog2 :: "rat \<Rightarrow> int" where
  "ilog2 x =
     (if x \<le> 0 then 0
      else if 2 \<le> x then ilog2 (x / 2) + 1
      else if x < 1 then ilog2 (2 * x) - 1
      else 0)"
  by pat_completeness auto
termination
proof (relation "measure (\<lambda>x. nat \<lfloor>x\<rfloor> + 2 * nat \<lceil>1 / x\<rceil>)")
  show "wf (measure (\<lambda>x::rat. nat \<lfloor>x\<rfloor> + 2 * nat \<lceil>1 / x\<rceil>))"
    by simp
next
  fix x :: rat
  assume "\<not> x \<le> 0" "2 \<le> x"
  then have a: "\<lfloor>x / 2\<rfloor> < \<lfloor>x\<rfloor>" and b: "0 < \<lfloor>x\<rfloor>"
    by linarith+
  have c: "\<lceil>1 / (x / 2)\<rceil> = 1" "\<lceil>1 / x\<rceil> = 1"
    using \<open>2 \<le> x\<close> by (simp_all add: ceiling_eq_iff field_simps)
  from a b show "(x / 2, x) \<in> measure (\<lambda>x. nat \<lfloor>x\<rfloor> + 2 * nat \<lceil>1 / x\<rceil>)"
    unfolding in_measure c by linarith
next
  fix x :: rat
  assume x: "\<not> x \<le> 0" "\<not> 2 \<le> x" "x < 1"
  then have a: "\<lfloor>x\<rfloor> = 0" "\<lfloor>2 * x\<rfloor> \<le> 1" "0 \<le> \<lfloor>2 * x\<rfloor>"
    by (simp_all add: floor_eq_iff le_floor_iff floor_le_iff) 
  define c where "c = \<lceil>1 / x\<rceil>"
  have "1 / (2 * x) \<le> of_int c / 2"
    using x unfolding c_def by (simp add: field_simps)
  moreover have "1 < 1 / x"
    using x by (simp add: field_simps)
  then have c2: "2 \<le> c"
    unfolding c_def by linarith
  then have "(of_int c :: rat) / 2 \<le> of_int (c - 1)"
    by simp
  ultimately have "1 / (2 * x) \<le> of_int (c - 1)"
    by linarith
  then have "\<lceil>1 / (2 * x)\<rceil> \<le> c - 1"
    by (simp only: ceiling_le_iff)
  then have b: "\<lceil>1 / (2 * x)\<rceil> < \<lceil>1 / x\<rceil>"
    unfolding c_def by simp
  from a b show "(2 * x, x) \<in> measure (\<lambda>x. nat \<lfloor>x\<rfloor> + 2 * nat \<lceil>1 / x\<rceil>)"
    unfolding in_measure by linarith
qed

text \<open>
  The rounding of a number to binary64: to a multiple of the unit in the last place of
  its binade. The exponent is not bounded here: a binary64 number is below \<open>2 ^ 1024\<close>
  in size, and at least \<open>2 ^ - 1022\<close> unless it is subnormal. The operations below say
  what Python does with a result of \<open>2 ^ 1024\<close> or more.
\<close>

definition binary64 :: "rat \<Rightarrow> rat" where
  "binary64 x =
     (if x = 0 then 0
      else let ulp = 2 powi (ilog2 \<bar>x\<bar> - 52)
           in of_int (round_half_even (x / ulp)) * ulp)"

text \<open>
  The true division \<^verbatim>\<open>a / b\<close> of two \<^verbatim>\<open>int\<close>s: \<^verbatim>\<open>ZeroDivisionError\<close> for a zero divisor,
  otherwise the quotient rounded once, and \<^verbatim>\<open>OverflowError\<close> (integer division result
  too large for a float) when the rounded quotient is not below \<open>2 ^ 1024\<close>.
\<close>

definition int_truediv :: "int \<Rightarrow> int \<Rightarrow> py_error + rat" where
  "int_truediv a b =
     (if b = 0 then Inl ZeroDivisionError
      else let q = binary64 (of_int a / of_int b)
           in if 2 ^ 1024 \<le> \<bar>q\<bar> then Inl OverflowError else Inr q)"

subsection \<open>The class Video\<close>

text \<open>
  Dates are day numbers (the proleptic ordinal of \<^verbatim>\<open>datetime.date\<close>), so that
  \<^verbatim>\<open>(TODAY - self.upload_date).days\<close> is a difference of integers. The ordinal of a
  \<^verbatim>\<open>datetime.date\<close> lies between 1 (\<^verbatim>\<open>date.min\<close>) and 3652059 (\<^verbatim>\<open>date.max\<close>): \<open>is_date\<close>.
  The field \<^verbatim>\<open>pretty_date\<close> (a \<^verbatim>\<open>strftime\<close> rendering, read by \<^verbatim>\<open>full_info\<close> only) is
  left out.
\<close>

definition is_date :: "int \<Rightarrow> bool" where
  "is_date d \<longleftrightarrow> 1 \<le> d \<and> d \<le> 3652059"

record Video =
  title :: string
  views :: rat
  upload_date :: int
  days_up :: int
  years_up :: int
  avg_views :: rat

text \<open>\<^verbatim>\<open>int(x)\<close> of Python: truncation towards zero.\<close>

definition py_int :: "rat \<Rightarrow> int" where
  "py_int x = (if 0 \<le> x then \<lfloor>x\<rfloor> else \<lceil>x\<rceil>)"

text \<open>
  \<^verbatim>\<open>Video.__init__\<close>, with the module constant \<^verbatim>\<open>TODAY\<close> as first argument. The two
  divisions of lines 31 and 33 are true divisions of \<^verbatim>\<open>int\<close>s; the one of line 33 raises
  \<^verbatim>\<open>ZeroDivisionError\<close> when \<^verbatim>\<open>days_up\<close> is zero, and an exception leaves no object.
\<close>

definition Video_init :: "int \<Rightarrow> string \<Rightarrow> int \<Rightarrow> int \<Rightarrow> py_error + Video" where
  "Video_init TODAY title' views' upload_date' =
     (let days_up' = TODAY - upload_date'
      in case int_truediv days_up' 365 of
           Inl e \<Rightarrow> Inl e
         | Inr years \<Rightarrow>
             (case int_truediv views' days_up' of
                Inl e \<Rightarrow> Inl e
              | Inr avg_views' \<Rightarrow>
                  Inr \<lparr>title = title', views = of_int views', upload_date = upload_date',
                       days_up = days_up', years_up = py_int years,
                       avg_views = avg_views'\<rparr>))"

text \<open>\<^verbatim>\<open>Video.__str__\<close> without the colour codes: the title and \<^verbatim>\<open>int(self.views)\<close>.\<close>

definition Video_str :: "Video \<Rightarrow> string \<times> int" where
  "Video_str v = (title v, py_int (views v))"

text \<open>
  \<^verbatim>\<open>Video.fast_forward\<close>: \<^verbatim>\<open>self.views += self.avg_views * days\<close>. The product and the sum
  are \<^verbatim>\<open>float\<close> operations: an \<^verbatim>\<open>int\<close> operand (\<^verbatim>\<open>days\<close>, and \<^verbatim>\<open>views\<close> before the first
  call) is converted to \<^verbatim>\<open>float\<close> first, and each result is rounded. Where an operand or
  a result reaches \<open>2 ^ 1024\<close>, Python raises \<^verbatim>\<open>OverflowError\<close> (the conversion of an
  \<^verbatim>\<open>int\<close>) or goes on with an infinity (a product or a sum); this function then holds
  the finite value, and what is proved of the values of the views is proved for views
  inside the range.
\<close>

definition fast_forward :: "Video \<Rightarrow> int \<Rightarrow> Video" where
  "fast_forward v days =
     v\<lparr>views := binary64 (binary64 (views v) +
                         binary64 (avg_views v * binary64 (of_int days)))\<rparr>"

subsection \<open>Objects and references\<close>

text \<open>
  A Python list holds references, and \<^verbatim>\<open>prev_order\<close> holds references to the same objects
  as \<^verbatim>\<open>videos\<close>. The store maps a reference to the object's current fields; a reference
  is never dangling in Python, so the store is total.
\<close>

type_synonym ref = nat
type_synonym store = "ref \<Rightarrow> Video"

text \<open>
  \<^verbatim>\<open>videos.sort(reverse=True, key=...)\<close>. CPython reverses the list, sorts it stably in
  ascending order of the key and reverses it again, which keeps the sort stable under
  \<^verbatim>\<open>reverse=True\<close>.
\<close>

definition sort_reverse :: "('a \<Rightarrow> 'k::linorder) \<Rightarrow> 'a list \<Rightarrow> 'a list" where
  "sort_reverse key xs = rev (sort_key key (rev xs))"

text \<open>\<^verbatim>\<open>'%d' % n\<close> for a natural number.\<close>

fun str_nat :: "nat \<Rightarrow> string" where
  "str_nat n =
     (if n < 10 then [''0123456789'' ! n]
      else str_nat (n div 10) @ [''0123456789'' ! (n mod 10)])"

declare str_nat.simps [simp del]

text \<open>
  \<^verbatim>\<open>print_videos_summary\<close>: one numbered line per video, \<^verbatim>\<open>'%d. %s' % (i + 1, vid)\<close>. A
  line is the number with what \<^verbatim>\<open>__str__\<close> shows of the video.
\<close>

type_synonym line = "nat \<times> string \<times> int"

definition print_videos_summary :: "Video list \<Rightarrow> line list" where
  "print_videos_summary videos = map (\<lambda>(i, vid). (i + 1, Video_str vid)) (enumerate 0 videos)"

subsection \<open>track\_changes\<close>

text \<open>
  The state of the loop of \<^verbatim>\<open>track_changes\<close> (lines 120 to 137): the objects, the list
  \<^verbatim>\<open>videos\<close>, the dictionary \<^verbatim>\<open>prev_order\<close> (\<open>None\<close> before the first day; its items in
  insertion order, as \<^verbatim>\<open>.items()\<close> walks them) and what has been printed: a snapshot is a
  heading with the numbered summary under it. The full details printed before the loop
  (lines 117 and 118) change no state and are not part of the model.
\<close>

type_synonym snapshot = "string \<times> line list"

record sim =
  objs :: store
  videos :: "ref list"
  prev_order :: "(nat \<times> ref) list option"
  printed :: "snapshot list"

text \<open>
  The comparison of lines 129 to 133: walk \<^verbatim>\<open>prev_order.items()\<close>, stop with \<open>True\<close> at the
  first position whose two titles differ (the \<^verbatim>\<open>break\<close>, after the report). \<^verbatim>\<open>videos[i]\<close>
  raises \<^verbatim>\<open>IndexError\<close> out of range.
\<close>

fun order_changed :: "store \<Rightarrow> (nat \<times> ref) list \<Rightarrow> ref list \<Rightarrow> py_error + bool" where
  "order_changed h [] vs = Inr False"
| "order_changed h ((i, vid) # items) vs =
     (if length vs \<le> i then Inl IndexError
      else if title (h vid) \<noteq> title (h (vs ! i)) then Inr True
      else order_changed h items vs)"

text \<open>
  Lines 125 to 133: what day number \<open>day\<close> prints, given the sorted list. On a later day
  \<^verbatim>\<open>prev_order.items()\<close> raises \<^verbatim>\<open>AttributeError\<close> should \<^verbatim>\<open>prev_order\<close> still be \<open>None\<close>.
\<close>

definition report :: "nat \<Rightarrow> sim \<Rightarrow> py_error + snapshot list" where
  "report day s =
     (if day = 0
      then Inr [(''Starting state (Day 1):'', print_videos_summary (map (objs s) (videos s)))]
      else (case prev_order s of
              None \<Rightarrow> Inl AttributeError
            | Some items \<Rightarrow>
                (case order_changed (objs s) items (videos s) of
                   Inl e \<Rightarrow> Inl e
                 | Inr changed \<Rightarrow>
                     if changed
                     then Inr [(''Day '' @ str_nat (day + 1) @ '':'',
                                print_videos_summary (map (objs s) (videos s)))]
                     else Inr [])))"

text \<open>Lines 136 and 137: \<^verbatim>\<open>for vid in videos: vid.fast_forward()\<close>, one day each.\<close>

definition fast_forward_all :: "ref list \<Rightarrow> store \<Rightarrow> store" where
  "fast_forward_all vs h = fold (\<lambda>vid h'. h'(vid := fast_forward (h' vid) 1)) vs h"

text \<open>Line 123, the sort of the list by the current views, largest first.\<close>

definition sort_step :: "sim \<Rightarrow> sim" where
  "sort_step s = s\<lparr>videos := sort_reverse (\<lambda>vid. views (objs s vid)) (videos s)\<rparr>"

text \<open>One turn of the loop, lines 123 to 137.\<close>

definition loop_body :: "nat \<Rightarrow> sim \<Rightarrow> py_error + sim" where
  "loop_body day s =
     (let s1 = sort_step s
      in case report day s1 of
           Inl e \<Rightarrow> Inl e
         | Inr out \<Rightarrow>
             Inr (s1\<lparr>printed := printed s1 @ out,
                      prev_order := Some (enumerate 0 (videos s1)),
                      objs := fast_forward_all (videos s1) (objs s1)\<rparr>))"

text \<open>\<^verbatim>\<open>for day in range(days_threshold)\<close>, over the list of the days.\<close>

fun run_days :: "nat list \<Rightarrow> sim \<Rightarrow> py_error + sim" where
  "run_days [] s = Inr s"
| "run_days (day # days) s =
     (case loop_body day s of Inl e \<Rightarrow> Inl e | Inr s' \<Rightarrow> run_days days s')"

definition track_changes :: "store \<Rightarrow> ref list \<Rightarrow> nat \<Rightarrow> py_error + sim" where
  "track_changes h vs days_threshold =
     run_days [0..<days_threshold]
       \<lparr>objs = h, videos = vs, prev_order = None, printed = []\<rparr>"

subsection \<open>main\<close>

text \<open>
  The command line as \<^verbatim>\<open>argparse\<close> returns it: \<^verbatim>\<open>-j\<close> (required, \<^verbatim>\<open>dest='json'\<close>), \<^verbatim>\<open>-k\<close>
  (\<^verbatim>\<open>dest='key'\<close>) and \<^verbatim>\<open>-d\<close> (an \<^verbatim>\<open>int\<close>, attribute \<^verbatim>\<open>d\<close>); an option that is
  not given is \<open>None\<close>.
\<close>

record args =
  arg_json :: string
  arg_key :: "string option"
  arg_d :: "int option"

text \<open>The dictionary \<^verbatim>\<open>data\<close> read from the JSON file: its keys \<^verbatim>\<open>'videos'\<close> and \<^verbatim>\<open>'key'\<close>.\<close>

record config =
  data_videos :: "string list option"
  data_key :: "string option"

text \<open>
  \<^verbatim>\<open>get_video_details\<close>. The answer of the YouTube API is a parameter: for a video id and
  a key, the title, the view count and the upload date. The function builds the
  \<^verbatim>\<open>Video\<close> from them.
\<close>

type_synonym api = "string \<Rightarrow> string \<Rightarrow> string \<times> int \<times> int"

definition get_video_details :: "int \<Rightarrow> api \<Rightarrow> string \<Rightarrow> string \<Rightarrow> py_error + Video" where
  "get_video_details TODAY youtube vid_id key =
     (case youtube vid_id key of
        (title', views', upload_date') \<Rightarrow> Video_init TODAY title' views' upload_date')"

text \<open>The list comprehension of line 174: the first exception ends it.\<close>

fun get_all :: "('a \<Rightarrow> py_error + 'b) \<Rightarrow> 'a list \<Rightarrow> py_error + 'b list" where
  "get_all f [] = Inr []"
| "get_all f (x # xs) =
     (case f x of
        Inl e \<Rightarrow> Inl e
      | Inr y \<Rightarrow> (case get_all f xs of Inl e \<Rightarrow> Inl e | Inr ys \<Rightarrow> Inr (y # ys)))"

text \<open>The default of the parameter \<^verbatim>\<open>days_threshold\<close> of \<^verbatim>\<open>track_changes\<close>.\<close>

definition days_threshold_default :: nat where
  "days_threshold_default = 100"

text \<open>
  \<^verbatim>\<open>main\<close>: it returns 1 or 2 after a message, or runs \<^verbatim>\<open>track_changes(videos)\<close> and falls
  off its end. The content of the JSON files is a parameter. The objects made by the
  list comprehension are numbered in the order they are made, and the list refers to them
  in that order.
\<close>

datatype main_result = Returned int | Tracked sim

definition main :: "int \<Rightarrow> (string \<Rightarrow> config) \<Rightarrow> api \<Rightarrow> args \<Rightarrow> py_error + main_result" where
  "main TODAY files youtube a =
     (let data = files (arg_json a)
      in case data_videos data of
           None \<Rightarrow> Inr (Returned 1)
         | Some video_ids \<Rightarrow>
             (case (case data_key data of Some k \<Rightarrow> Some k | None \<Rightarrow> arg_key a) of
                None \<Rightarrow> Inr (Returned 2)
              | Some key \<Rightarrow>
                  (case get_all (\<lambda>vid. get_video_details TODAY youtube vid key) video_ids of
                     Inl e \<Rightarrow> Inl e
                   | Inr vids \<Rightarrow>
                       (case track_changes (\<lambda>r. vids ! r) [0..<length vids]
                               days_threshold_default of
                          Inl e \<Rightarrow> Inl e
                        | Inr s \<Rightarrow> Inr (Tracked s)))))"

subsection \<open>A list that no longer changes\<close>

text \<open>
  A state in which no video can overtake another: the list holds each object once, in
  descending order of the views and of the daily averages, and \<^verbatim>\<open>prev_order\<close> is the
  order of the list.
\<close>

definition settled :: "sim \<Rightarrow> bool" where
  "settled s \<longleftrightarrow>
     distinct (videos s) \<and>
     sorted_wrt (\<lambda>a b. views (objs s b) \<le> views (objs s a) \<and>
                       avg_views (objs s b) \<le> avg_views (objs s a)) (videos s) \<and>
     prev_order s = Some (enumerate 0 (videos s))"

subsection \<open>Sample videos\<close>

definition sample_A :: Video where
  "sample_A = \<lparr>title = ''A'', views = 100, upload_date = 900, days_up = 100, years_up = 0,
                avg_views = 1\<rparr>"

definition sample_B :: Video where
  "sample_B = \<lparr>title = ''B'', views = 90, upload_date = 982, days_up = 18, years_up = 0,
                avg_views = 5\<rparr>"

definition sample_C :: Video where
  "sample_C = \<lparr>title = ''C'', views = 40, upload_date = 992, days_up = 8, years_up = 0,
                avg_views = 5\<rparr>"

definition sample_Z :: Video where
  "sample_Z = \<lparr>title = ''Z'', views = 0, upload_date = 1001, days_up = - 1, years_up = 0,
                avg_views = 0\<rparr>"

definition sample_one :: Video where
  "sample_one = \<lparr>title = ''Z'', views = 1, upload_date = 1001, days_up = - 1, years_up = 0,
                  avg_views = - 1\<rparr>"

definition sample_third :: Video where
  "sample_third = \<lparr>title = ''T'', views = 1, upload_date = 997, days_up = 3, years_up = 0,
                    avg_views = 6004799503160661 / 18014398509481984\<rparr>"

definition sample_sim :: sim where
  "sample_sim = \<lparr>objs = (\<lambda>_. sample_C)(1 := sample_B), videos = [0, 1, 2],
                  prev_order = None, printed = []\<rparr>"

definition sample_day_3 :: sim where
  "sample_day_3 = \<lparr>objs = (\<lambda>_. sample_B\<lparr>views := 100\<rparr>)(1 := sample_A\<lparr>views := 102\<rparr>),
                    videos = [1, 0], prev_order = Some [(0, 1), (1, 0)], printed = []\<rparr>"

definition sample_twins :: sim where
  "sample_twins = \<lparr>objs = (\<lambda>_. sample_B\<lparr>title := ''A'', views := 105\<rparr>)
                            (1 := sample_A\<lparr>views := 103\<rparr>),
                    videos = [1, 0], prev_order = Some [(0, 1), (1, 0)], printed = []\<rparr>"

definition sample_files :: "string \<Rightarrow> config" where
  "sample_files path = \<lparr>data_videos = Some [''a'', ''b''], data_key = Some ''k''\<rparr>"

definition sample_youtube :: api where
  "sample_youtube vid_id key = (if vid_id = ''a'' then (''A'', 100, 900) else (''B'', 90, 982))"

section \<open>Rounding to binary64\<close>

declare ilog2.simps [simp del]

lemma two_powi_add_1: "(2::rat) powi (k + 1) = 2 * 2 powi k"
  by (simp add: power_int_add_1)

lemma two_powi_diff_1: "(2::rat) powi (k - 1) = 2 powi k / 2"
  by (simp add: power_int_diff)

lemma ilog2_bounds:
  "0 < x \<Longrightarrow> 2 powi ilog2 x \<le> x \<and> x < 2 powi (ilog2 x + 1)"
proof (induction x rule: ilog2.induct)
  case (1 x)
  consider "2 \<le> x" | "x < 1" | "1 \<le> x" "x < 2"
    by linarith
  then show ?case
  proof cases
    case 1
    then have e: "ilog2 x = ilog2 (x / 2) + 1"
      using "1.prems" by (subst ilog2.simps) simp
    from "1.IH"(1) [of] 1 "1.prems"
    have "2 powi ilog2 (x / 2) \<le> x / 2 \<and> x / 2 < 2 powi (ilog2 (x / 2) + 1)"
      by simp
    then show ?thesis
      unfolding e two_powi_add_1 by simp
  next
    case 2
    then have e: "ilog2 x = ilog2 (2 * x) - 1"
      using "1.prems" by (subst ilog2.simps) simp
    from "1.IH"(2) 2 "1.prems"
    have "2 powi ilog2 (2 * x) \<le> 2 * x \<and> 2 * x < 2 powi (ilog2 (2 * x) + 1)"
      by simp
    then have "2 powi ilog2 (2 * x) / 2 \<le> x \<and> x < 2 powi ilog2 (2 * x)"
      unfolding two_powi_add_1 by simp
    then show ?thesis
      unfolding e by (simp add: two_powi_diff_1)
  next
    case 3
    then have e: "ilog2 x = 0"
      by (subst ilog2.simps) simp
    from 3 show ?thesis
      unfolding e by simp
  qed
qed

lemma ilog2_unique:
  assumes "2 powi e \<le> x" "x < 2 powi (e + 1)"
  shows "ilog2 x = e"
proof -
  have pos: "0 < x"
    using assms(1) by (rule less_le_trans [rotated]) simp
  from ilog2_bounds [OF pos] have b: "2 powi ilog2 x \<le> x" "x < 2 powi (ilog2 x + 1)"
    by simp_all
  have "\<not> ilog2 x + 1 \<le> e"
  proof
    assume "ilog2 x + 1 \<le> e"
    then have "(2::rat) powi (ilog2 x + 1) \<le> 2 powi e"
      by (intro power_int_increasing) simp_all
    with b(2) assms(1) show False by linarith
  qed
  moreover have "\<not> e + 1 \<le> ilog2 x"
  proof
    assume "e + 1 \<le> ilog2 x"
    then have "(2::rat) powi (e + 1) \<le> 2 powi ilog2 x"
      by (intro power_int_increasing) simp_all
    with b(1) assms(2) show False by linarith
  qed
  ultimately show ?thesis by linarith
qed

lemma round_half_even_of_int: "round_half_even (of_int k) = k"
  by (simp add: round_half_even_def)

lemma round_half_even_between:
  "\<lfloor>q\<rfloor> \<le> round_half_even q \<and> round_half_even q \<le> \<lfloor>q\<rfloor> + 1"
  by (simp add: round_half_even_def Let_def)

lemma round_half_even_mono:
  assumes "q \<le> r"
  shows "round_half_even q \<le> round_half_even r"
proof (cases "\<lfloor>q\<rfloor> = \<lfloor>r\<rfloor>")
  case True
  with assms have "q - of_int \<lfloor>q\<rfloor> \<le> r - of_int \<lfloor>r\<rfloor>"
    by simp
  with True show ?thesis
    by (auto simp: round_half_even_def Let_def)
next
  case False
  with assms have "\<lfloor>q\<rfloor> + 1 \<le> \<lfloor>r\<rfloor>"
    using floor_mono [OF assms] by linarith
  with round_half_even_between [of q] round_half_even_between [of r] show ?thesis
    by linarith
qed

lemma round_half_even_minus: "round_half_even (- q) = - round_half_even q"
proof (cases "q = of_int \<lfloor>q\<rfloor>")
  case True
  then obtain k where "q = of_int k" ..
  then show ?thesis
    by (simp add: round_half_even_of_int flip: of_int_minus)
next
  case False
  then have f: "\<lfloor>- q\<rfloor> = - \<lfloor>q\<rfloor> - 1"
    by (simp add: floor_minus ceiling_altdef)
  show ?thesis
    using False unfolding round_half_even_def Let_def f
    by (auto simp: algebra_simps)
qed

lemma binary64_0 [simp]: "binary64 0 = 0"
  by (simp add: binary64_def)

lemma binary64_eval:
  assumes "2 powi e \<le> \<bar>x\<bar>" "\<bar>x\<bar> < 2 powi (e + 1)"
  shows "binary64 x = of_int (round_half_even (x / 2 powi (e - 52))) * 2 powi (e - 52)"
proof -
  have "0 < \<bar>x\<bar>"
    using assms(1) by (rule less_le_trans [rotated]) simp
  then have "x \<noteq> 0" by simp
  with ilog2_unique [OF assms] show ?thesis
    by (simp add: binary64_def Let_def)
qed

lemma binary64_minus: "binary64 (- x) = - binary64 x"
  by (simp add: binary64_def Let_def round_half_even_minus)

lemma binary64_binade:
  assumes "2 powi e \<le> x" "x < 2 powi (e + 1)"
  shows "2 powi e \<le> binary64 x \<and> binary64 x \<le> 2 powi (e + 1)"
proof -
  define u :: rat where "u = 2 powi (e - 52)"
  have u: "0 < u" by (simp add: u_def)
  have pos: "0 < x"
    using assms(1) by (rule less_le_trans [rotated]) simp
  have lo: "2 powi e = 2 ^ 52 * u" and hi: "2 powi (e + 1) = 2 ^ 53 * u"
    by (simp_all add: u_def power_int_diff power_int_add)
  from pos assms have b: "binary64 x = of_int (round_half_even (x / u)) * u"
    unfolding u_def by (intro binary64_eval) simp_all
  have "of_int (2 ^ 52) \<le> x / u"
    using assms(1) u unfolding lo by (simp add: field_simps)
  from round_half_even_mono [OF this] have l: "2 ^ 52 \<le> round_half_even (x / u)"
    by (simp only: round_half_even_of_int)
  have "x / u \<le> of_int (2 ^ 53)"
    using assms(2) u unfolding hi by (simp add: field_simps)
  from round_half_even_mono [OF this] have h: "round_half_even (x / u) \<le> 2 ^ 53"
    by (simp only: round_half_even_of_int)
  from l have "(2 ^ 52 :: rat) \<le> of_int (round_half_even (x / u))"
    by (metis of_int_le_iff of_int_numeral of_int_power)
  moreover from h have "of_int (round_half_even (x / u)) \<le> (2 ^ 53 :: rat)"
    by (metis of_int_le_iff of_int_numeral of_int_power)
  ultimately show ?thesis
    unfolding b lo hi using u by simp
qed

lemma binary64_pos: "0 < x \<Longrightarrow> 0 < binary64 x"
proof -
  assume "0 < x"
  from ilog2_bounds [OF this] binary64_binade [of "ilog2 x" x]
  have "2 powi ilog2 x \<le> binary64 x" by simp
  then show ?thesis
    by (rule less_le_trans [rotated]) simp
qed

lemma binary64_neg: "x < 0 \<Longrightarrow> binary64 x < 0"
  using binary64_pos [of "- x"] by (simp add: binary64_minus)

lemma binary64_mono_pos:
  assumes "0 < x" "x \<le> y"
  shows "binary64 x \<le> binary64 y"
proof -
  from assms have y: "0 < y" by simp
  note bx = ilog2_bounds [OF assms(1)] and by' = ilog2_bounds [OF y]
  consider "ilog2 x = ilog2 y" | "ilog2 x < ilog2 y" | "ilog2 y < ilog2 x"
    by linarith
  then show ?thesis
  proof cases
    case 1
    define u :: rat where "u = 2 powi (ilog2 y - 52)"
    have u: "0 < u" by (simp add: u_def)
    from assms u have "x / u \<le> y / u"
      by (simp add: divide_right_mono)
    from round_half_even_mono [OF this]
    have "(of_int (round_half_even (x / u)) :: rat) * u \<le> of_int (round_half_even (y / u)) * u"
      using u by simp
    with assms y 1 show ?thesis
      by (simp add: binary64_def Let_def u_def)
  next
    case 2
    then have "(2::rat) powi (ilog2 x + 1) \<le> 2 powi ilog2 y"
      by (intro power_int_increasing) simp_all
    with binary64_binade [of "ilog2 x" x] binary64_binade [of "ilog2 y" y] bx by'
    show ?thesis by linarith
  next
    case 3
    then have "(2::rat) powi (ilog2 y + 1) \<le> 2 powi ilog2 x"
      by (intro power_int_increasing) simp_all
    with bx by' assms(2) show ?thesis by linarith
  qed
qed

lemma binary64_mono:
  assumes "x \<le> y"
  shows "binary64 x \<le> binary64 y"
proof -
  consider "0 < x" | "x \<le> 0" "0 \<le> y" | "y < 0"
    using assms by linarith
  then show ?thesis
  proof cases
    case 1
    then show ?thesis using assms by (rule binary64_mono_pos)
  next
    case 2
    have "binary64 x \<le> 0"
      using 2(1) binary64_neg [of x] by (cases "x = 0") (simp_all add: binary64_0)
    moreover have "0 \<le> binary64 y"
      using 2(2) binary64_pos [of y] by (cases "y = 0") (simp_all add: binary64_0)
    ultimately show ?thesis by simp
  next
    case 3
    with assms have "0 < - y" "- y \<le> - x" by simp_all
    from binary64_mono_pos [OF this] show ?thesis
      by (simp add: binary64_minus)
  qed
qed

lemma binary64_scaled_less:
  assumes "\<bar>j\<bar> < 2 ^ 53"
  shows "binary64 (of_int j * 2 powi q) = of_int j * 2 powi q"
proof (cases "j = 0")
  case True
  then show ?thesis by (simp add: binary64_0)
next
  case False
  define x :: rat where "x = of_int j * 2 powi q"
  define e where "e = ilog2 \<bar>x\<bar>"
  have x0: "x \<noteq> 0" "0 < \<bar>x\<bar>"
    using False by (simp_all add: x_def)
  from ilog2_bounds [OF x0(2)] have lo: "2 powi e \<le> \<bar>x\<bar>"
    by (simp add: e_def)
  have "\<bar>x\<bar> = of_int \<bar>j\<bar> * 2 powi q"
    by (simp add: x_def abs_mult)
  also have "\<dots> < 2 ^ 53 * 2 powi q"
  proof -
    from assms have "(of_int \<bar>j\<bar> :: rat) < 2 ^ 53"
      by (metis of_int_less_iff of_int_numeral of_int_power)
    then show ?thesis by simp
  qed
  also have "\<dots> = 2 powi (53 + q)"
    by (simp add: power_int_add)
  finally have "(2::rat) powi e < 2 powi (53 + q)"
    using lo by simp
  have "\<not> 53 + q \<le> e"
  proof
    assume "53 + q \<le> e"
    then have "(2::rat) powi (53 + q) \<le> 2 powi e"
      by (intro power_int_increasing) simp_all
    with \<open>(2::rat) powi e < 2 powi (53 + q)\<close> show False by simp
  qed
  then have "0 \<le> q - (e - 52)" by simp
  then obtain n where "q - (e - 52) = int n"
    by (rule nonneg_int_cases)
  then have n: "q = e - 52 + int n" by simp
  have "x / 2 powi (e - 52) = of_int (j * 2 ^ n)"
    by (simp add: x_def n power_int_add)
  then have "round_half_even (x / 2 powi (e - 52)) = j * 2 ^ n"
    by (simp only: round_half_even_of_int)
  then have "binary64 x = of_int (j * 2 ^ n) * 2 powi (e - 52)"
    using x0 by (simp add: binary64_def Let_def e_def)
  also have "\<dots> = x"
    by (simp add: x_def n power_int_add)
  finally show ?thesis
    by (simp add: x_def)
qed

lemma binary64_scaled:
  assumes "\<bar>j\<bar> \<le> 2 ^ 53"
  shows "binary64 (of_int j * 2 powi q) = of_int j * 2 powi q"
proof (cases "\<bar>j\<bar> < 2 ^ 53")
  case True
  then show ?thesis by (rule binary64_scaled_less)
next
  case False
  with assms have "\<bar>j\<bar> = 2 ^ 53" by simp
  then consider "j = 2 ^ 53" | "j = - (2 ^ 53)"
    by (auto simp: abs_if split: if_splits)
  then have "j div 2 = 2 ^ 52 \<or> j div 2 = - (2 ^ 52)"
    by cases simp_all
  then have "\<bar>j div 2\<bar> < 2 ^ 53"
    by auto
  moreover from \<open>\<bar>j\<bar> = 2 ^ 53\<close> have "even j"
    by (metis even_abs_add_iff even_add even_numeral even_power zero_less_numeral)
  then have "j = 2 * (j div 2)"
    by simp
  ultimately have j: "j = 2 * (j div 2)" and "\<bar>j div 2\<bar> < 2 ^ 53"
    by simp_all
  from binary64_scaled_less [OF this(2), of "q + 1"]
  have "binary64 (of_int (j div 2) * 2 powi (q + 1)) = of_int (j div 2) * 2 powi (q + 1)" .
  moreover have "of_int (j div 2) * 2 powi (q + 1) = (of_int j :: rat) * 2 powi q"
    by (subst (2) j) (simp add: two_powi_add_1)
  ultimately show ?thesis by simp
qed

lemma binary64_of_int:
  "\<bar>k\<bar> \<le> 2 ^ 53 \<Longrightarrow> binary64 (of_int k) = of_int k"
  using binary64_scaled [of k 0] by simp

lemma binary64_numeral [simp]:
  "numeral k \<le> (9007199254740992::int) \<Longrightarrow> binary64 (numeral k) = numeral k"
  using binary64_of_int [of "numeral k"] by simp

lemma binary64_1 [simp]: "binary64 1 = 1"
  using binary64_of_int [of 1] by simp

lemma binary64_neg_numeral [simp]:
  "numeral k \<le> (9007199254740992::int) \<Longrightarrow> binary64 (- numeral k) = - numeral k"
  by (simp add: binary64_minus)

lemma binary64_idem: "binary64 (binary64 x) = binary64 x"
proof (cases "x = 0")
  case True
  then show ?thesis by (simp add: binary64_0)
next
  case False
  define e where "e = ilog2 \<bar>x\<bar>"
  define u :: rat where "u = 2 powi (e - 52)"
  have u: "0 < u" by (simp add: u_def)
  from False have "0 < \<bar>x\<bar>" by simp
  from ilog2_bounds [OF this] have "\<bar>x\<bar> < 2 powi (e + 1)"
    by (simp add: e_def)
  also have "\<dots> = 2 ^ 53 * u"
    by (simp add: u_def power_int_diff power_int_add)
  finally have "\<bar>x / u\<bar> \<le> of_int (2 ^ 53)"
    using u by (simp add: field_simps abs_mult)
  then have "of_int (- (2 ^ 53)) \<le> x / u" "x / u \<le> of_int (2 ^ 53)"
    using abs_le_D1 [of "x / u" "of_int (2 ^ 53)"] abs_le_D2 [of "x / u" "of_int (2 ^ 53)"]
    by linarith+
  then have "- (2 ^ 53) \<le> round_half_even (x / u)" "round_half_even (x / u) \<le> 2 ^ 53"
    using round_half_even_mono [of "of_int (- (2 ^ 53))" "x / u"]
      round_half_even_mono [of "x / u" "of_int (2 ^ 53)"]
    by (simp_all only: round_half_even_of_int)
  then have "\<bar>round_half_even (x / u)\<bar> \<le> 2 ^ 53"
    by simp
  from binary64_scaled [OF this, of "e - 52"] False show ?thesis
    by (simp add: binary64_def Let_def e_def u_def)
qed

lemma binary64_in_range:
  assumes "\<bar>x\<bar> \<le> 2 ^ 1023"
  shows "\<not> 2 ^ 1024 \<le> \<bar>binary64 x\<bar>"
proof -
  have "binary64 (of_int 1 * 2 powi 1023) = of_int 1 * 2 powi 1023"
    by (rule binary64_scaled) simp
  then have top: "binary64 (2 ^ 1023) = 2 ^ 1023"
    by (simp only: of_int_1 mult_1 power_int_numeral)
  from assms have "- (2 ^ 1023) \<le> x" "x \<le> 2 ^ 1023"
    using abs_le_D1 [of x "2 ^ 1023"] abs_le_D2 [of x "2 ^ 1023"] by linarith+
  from binary64_mono [OF this(1)] binary64_mono [OF this(2)]
  have "- (2 ^ 1023) \<le> binary64 x" "binary64 x \<le> 2 ^ 1023"
    by (simp_all only: binary64_minus top)
  then have "\<bar>binary64 x\<bar> \<le> 2 ^ 1023"
    by (intro abs_leI) linarith+
  also have "\<dots> < (2 ^ 1024 :: rat)"
    by simp
  finally show ?thesis by simp
qed

lemma int_truediv_in_range:
  assumes "b \<noteq> 0" "\<bar>of_int a / of_int b :: rat\<bar> \<le> 2 ^ 1023"
  shows "int_truediv a b = Inr (binary64 (of_int a / of_int b))"
  using assms(1) binary64_in_range [OF assms(2)]
  by (simp add: int_truediv_def Let_def)

lemma years_up_small:
  assumes "- (1023 / 1024) \<le> x" "x \<le> 1023 / 1024"
  shows "py_int (binary64 x) = 0"
proof -
  have top: "binary64 (1023 / 1024) = 1023 / 1024"
    using binary64_scaled [of 1023 "- 10"] by simp
  from binary64_mono [OF assms(1)] binary64_mono [OF assms(2)]
  have b: "- (1023 / 1024) \<le> binary64 x" "binary64 x \<le> 1023 / 1024"
    by (simp_all add: binary64_minus top)
  show ?thesis
  proof (cases "0 \<le> binary64 x")
    case True
    with b show ?thesis
      by (simp add: py_int_def floor_eq_iff)
  next
    case False
    with b show ?thesis
      by (simp add: py_int_def ceiling_eq_iff)
  qed
qed

lemma round_half_even_quotient:
  assumes "0 < d"
  shows "round_half_even (of_int n / of_int d) =
     (if 2 * (n mod d) < d then n div d
      else if d < 2 * (n mod d) then n div d + 1
      else if even (n div d) then n div d else n div d + 1)"
proof -
  have f: "\<lfloor>(of_int n :: rat) / of_int d\<rfloor> = n div d"
    by (rule floor_divide_of_int_eq)
  have "(of_int n :: rat) = of_int (n div d) * of_int d + of_int (n mod d)"
    by (metis of_int_add of_int_mult div_mult_mod_eq)
  then have r: "(of_int n :: rat) / of_int d - of_int (n div d) = of_int (n mod d) / of_int d"
    using assms by (simp add: field_simps)
  have a: "(of_int (n mod d) / of_int d < (1 / 2 :: rat)) = (2 * (n mod d) < d)"
    using assms by (simp add: field_simps) (metis of_int_less_iff of_int_mult of_int_numeral mult.commute)
  have b: "((1 / 2 :: rat) < of_int (n mod d) / of_int d) = (d < 2 * (n mod d))"
    using assms by (simp add: field_simps) (metis of_int_less_iff of_int_mult of_int_numeral mult.commute)
  show ?thesis
    unfolding round_half_even_def Let_def f r a b by simp
qed

lemma round_half_even_numeral:
  "round_half_even (numeral n / numeral d) =
     (if 2 * (numeral n mod numeral d) < (numeral d :: int) then numeral n div numeral d
      else if numeral d < 2 * (numeral n mod numeral d :: int) then numeral n div numeral d + 1
      else if even (numeral n div numeral d :: int) then numeral n div numeral d
      else numeral n div numeral d + 1)"
  using round_half_even_quotient [of "numeral d" "numeral n"] by simp

lemma binary64_fixed_pos:
  assumes "binary64 v = v" "0 < v"
  obtains k e where "v = of_int k * 2 powi (e - 52)" "2 ^ 52 \<le> k" "k < 2 ^ 53"
proof -
  define e where "e = ilog2 v"
  define u :: rat where "u = 2 powi (e - 52)"
  define k where "k = round_half_even (v / u)"
  have u: "0 < u" by (simp add: u_def)
  from assms have v: "v = of_int k * u"
    by (simp add: binary64_def Let_def e_def u_def k_def)
  from ilog2_bounds [OF assms(2)] have "2 powi e \<le> v" "v < 2 powi (e + 1)"
    by (simp_all add: e_def)
  moreover have "2 powi e = 2 ^ 52 * u" "2 powi (e + 1) = 2 ^ 53 * u"
    by (simp_all add: u_def power_int_diff power_int_add)
  ultimately have "2 ^ 52 * u \<le> of_int k * u" "of_int k * u < 2 ^ 53 * u"
    using v by simp_all
  with u have "(2 ^ 52 :: rat) \<le> of_int k" "(of_int k :: rat) < 2 ^ 53"
    by simp_all
  then have "2 ^ 52 \<le> k" "k < 2 ^ 53"
    by (metis of_int_le_iff of_int_numeral of_int_power,
        metis of_int_less_iff of_int_numeral of_int_power)
  with v that show thesis
    unfolding u_def by blast
qed

lemma binary64_step_down:
  assumes "binary64 v = v" "g < 0" "\<bar>v\<bar> \<le> 2 ^ 52 * \<bar>g\<bar>"
  shows "binary64 (v + g) < v"
proof -
  consider "v = 0" | "0 < v" | "v < 0" by linarith
  then show ?thesis
  proof cases
    case 1
    with assms(2) show ?thesis by (simp add: binary64_neg)
  next
    case 2
    from binary64_fixed_pos [OF assms(1) 2] obtain k e where
      v: "v = of_int k * 2 powi (e - 52)" and k: "2 ^ 52 \<le> k" "k < 2 ^ 53"
      by blast
    define u :: rat where "u = 2 powi (e - 52)"
    have u: "0 < u" by (simp add: u_def)
    from k(1) have "(2 ^ 52 :: rat) \<le> of_int k"
      by (metis of_int_le_iff of_int_numeral of_int_power)
    then have "2 ^ 52 * u \<le> v"
      using u by (simp add: v u_def)
    with assms(2,3) 2 have "u \<le> - g"
      by simp
    then have le: "v + g \<le> of_int (k - 1) * u"
      by (simp add: v u_def algebra_simps)
    from k have "\<bar>k - 1\<bar> \<le> 2 ^ 53" by simp
    from binary64_scaled [OF this, of "e - 52"]
    have fx: "binary64 (of_int (k - 1) * u) = of_int (k - 1) * u"
      by (simp add: u_def)
    from binary64_mono [OF le] have "binary64 (v + g) \<le> of_int (k - 1) * u"
      by (simp only: fx)
    also have "\<dots> < v"
      using u by (simp add: v u_def algebra_simps)
    finally show ?thesis .
  next
    case 3
    then have p: "0 < - v" by simp
    have "binary64 (- v) = - v"
      by (simp add: binary64_minus assms(1))
    from binary64_fixed_pos [OF this p] obtain k e where
      v: "- v = of_int k * 2 powi (e - 52)" and k: "2 ^ 52 \<le> k" "k < 2 ^ 53"
      by blast
    define u :: rat where "u = 2 powi (e - 52)"
    have u: "0 < u" by (simp add: u_def)
    from k(1) have "(2 ^ 52 :: rat) \<le> of_int k"
      by (metis of_int_le_iff of_int_numeral of_int_power)
    then have "2 ^ 52 * u \<le> - v"
      using u by (simp add: v u_def)
    with assms(2,3) 3 have "u \<le> - g"
      by simp
    moreover from v have v': "v = - (of_int k * u)"
      by (simp add: u_def)
    ultimately have le: "v + g \<le> of_int (- (k + 1)) * u"
      by (simp add: algebra_simps)
    from k have "\<bar>- (k + 1)\<bar> \<le> 2 ^ 53" by simp
    from binary64_scaled [OF this, of "e - 52"]
    have fx: "binary64 (of_int (- (k + 1)) * u) = of_int (- (k + 1)) * u"
      by (simp add: u_def)
    from binary64_mono [OF le] have "binary64 (v + g) \<le> of_int (- (k + 1)) * u"
      by (simp only: fx)
    also have "\<dots> < v"
      using u by (simp add: v' algebra_simps)
    finally show ?thesis .
  qed
qed

section \<open>Sorting, comparing and advancing\<close>

lemma sort_reverse_sorted: "sorted_wrt (\<lambda>a b. key b \<le> key a) (sort_reverse key xs)"
proof -
  have "sorted (map key (sort_key key (rev xs)))" by simp
  then have "sorted_wrt (\<lambda>a b. key a \<le> key b) (sort_key key (rev xs))"
    by (simp add: sorted_map)
  then show ?thesis
    by (simp add: sort_reverse_def sorted_wrt_rev)
qed

lemma sort_reverse_stable:
  "filter (\<lambda>y. key y = k) (sort_reverse key xs) = filter (\<lambda>y. key y = k) xs"
  by (simp add: sort_reverse_def sort_key_stable flip: rev_filter)

lemma mset_sort_reverse: "mset (sort_reverse key xs) = mset xs"
  by (simp add: sort_reverse_def)

lemma set_sort_reverse: "set (sort_reverse key xs) = set xs"
  by (simp add: sort_reverse_def)

lemma length_sort_reverse: "length (sort_reverse key xs) = length xs"
  by (simp add: sort_reverse_def)

lemma distinct_sort_reverse: "distinct (sort_reverse key xs) = distinct xs"
  by (simp add: sort_reverse_def)

lemma sort_reverse_id:
  assumes "sorted_wrt (\<lambda>a b. key b \<le> key a) xs"
  shows "sort_reverse key xs = xs"
proof -
  from assms have "sorted_wrt (\<lambda>a b. key a \<le> key b) (rev xs)"
    by (simp add: sorted_wrt_rev)
  then have "sorted (map key (rev xs))"
    by (simp add: sorted_map)
  then have "sort_key key (rev xs) = rev xs"
    by (rule sort_key_id_if_sorted)
  then show ?thesis by (simp add: sort_reverse_def)
qed

lemma order_changed_enumerate:
  assumes "k + length ps \<le> length vs"
  shows "order_changed h (enumerate k ps) vs =
           Inr (\<exists>j < length ps. title (h (ps ! j)) \<noteq> title (h (vs ! (k + j))))"
  using assms
proof (induction ps arbitrary: k)
  case Nil
  then show ?case by simp
next
  case (Cons p ps)
  from Cons.prems have k: "k < length vs" and rest: "Suc k + length ps \<le> length vs"
    by simp_all
  have ex: "(\<exists>j < length (p # ps). title (h ((p # ps) ! j)) \<noteq> title (h (vs ! (k + j)))) =
        (title (h p) \<noteq> title (h (vs ! k)) \<or>
          (\<exists>j < length ps. title (h (ps ! j)) \<noteq> title (h (vs ! (Suc k + j)))))"
    by (auto simp: less_Suc_eq_0_disj)
  show ?case
    using k Cons.IH [OF rest] unfolding ex by simp
qed

lemma order_changed_titles:
  assumes "length ps = length vs"
  shows "order_changed h (enumerate 0 ps) vs = Inr (map (\<lambda>r. title (h r)) ps \<noteq> map (\<lambda>r. title (h r)) vs)"
proof -
  have "order_changed h (enumerate 0 ps) vs =
          Inr (\<exists>j < length ps. title (h (ps ! j)) \<noteq> title (h (vs ! (0 + j))))"
    by (rule order_changed_enumerate) (simp add: assms)
  also have "(\<exists>j < length ps. title (h (ps ! j)) \<noteq> title (h (vs ! (0 + j)))) =
      (map (\<lambda>r. title (h r)) ps \<noteq> map (\<lambda>r. title (h r)) vs)"
    using assms by (auto simp: list_eq_iff_nth_eq)
  finally show ?thesis .
qed

lemma fast_forward_all_Nil: "fast_forward_all [] h = h"
  by (simp add: fast_forward_all_def)

lemma fast_forward_all_Cons:
  "fast_forward_all (v # vs) h = fast_forward_all vs (h(v := fast_forward (h v) 1))"
  by (simp add: fast_forward_all_def)

lemma fast_forward_all_title: "title (fast_forward_all vs h r) = title (h r)"
  by (induction vs arbitrary: h)
     (simp_all add: fast_forward_all_Nil fast_forward_all_Cons fast_forward_def)

lemma fast_forward_all_avg_views: "avg_views (fast_forward_all vs h r) = avg_views (h r)"
  by (induction vs arbitrary: h)
     (simp_all add: fast_forward_all_Nil fast_forward_all_Cons fast_forward_def)

lemma fast_forward_all_other:
  "r \<notin> set vs \<Longrightarrow> fast_forward_all vs h r = h r"
  by (induction vs arbitrary: h) (simp_all add: fast_forward_all_Nil fast_forward_all_Cons)

lemma fast_forward_all_distinct:
  assumes "distinct vs" "r \<in> set vs"
  shows "fast_forward_all vs h r = fast_forward (h r) 1"
  using assms
proof (induction vs arbitrary: h)
  case Nil
  then show ?case by simp
next
  case (Cons v vs)
  show ?case
  proof (cases "r = v")
    case True
    with Cons.prems show ?thesis
      by (simp add: fast_forward_all_Cons fast_forward_all_other)
  next
    case False
    with Cons.prems have "distinct vs" "r \<in> set vs"
      by simp_all
    then have "fast_forward_all vs (h(v := fast_forward (h v) 1)) r =
        fast_forward ((h(v := fast_forward (h v) 1)) r) 1"
      by (rule Cons.IH)
    with False show ?thesis
      by (simp add: fast_forward_all_Cons)
  qed
qed

lemma fast_forward_one:
  "views (fast_forward v 1) = binary64 (binary64 (views v) + binary64 (avg_views v))"
  by (simp add: fast_forward_def)

lemma fast_forward_same:
  "avg_views (fast_forward v days) = avg_views v"
  "title (fast_forward v days) = title v"
  by (simp_all add: fast_forward_def)

lemma fast_forward_mono:
  assumes "views w \<le> views v" "avg_views w \<le> avg_views v"
  shows "views (fast_forward w 1) \<le> views (fast_forward v 1)"
  unfolding fast_forward_one
  by (intro binary64_mono add_mono assms)

lemma fast_forward_rounded: "binary64 (views (fast_forward v days)) = views (fast_forward v days)"
  by (simp add: fast_forward_def binary64_idem)

section \<open>One day of the loop, and the loop\<close>

lemma report_first:
  "report 0 s = Inr [(''Starting state (Day 1):'', print_videos_summary (map (objs s) (videos s)))]"
  by (simp add: report_def)

lemma report_later:
  assumes "0 < day" "prev_order s = Some (enumerate 0 ps)" "length ps = length (videos s)"
  shows "report day s =
           Inr (if map (\<lambda>r. title (objs s r)) ps \<noteq> map (\<lambda>r. title (objs s r)) (videos s)
                then [(''Day '' @ str_nat (day + 1) @ '':'',
                       print_videos_summary (map (objs s) (videos s)))]
                else [])"
  using assms by (simp add: report_def order_changed_titles)

lemma sort_step_simps:
  "objs (sort_step s) = objs s"
  "prev_order (sort_step s) = prev_order s"
  "printed (sort_step s) = printed s"
  "videos (sort_step s) = sort_reverse (\<lambda>vid. views (objs s vid)) (videos s)"
  by (simp_all add: sort_step_def)

lemma length_sort_step: "length (videos (sort_step s)) = length (videos s)"
  by (simp add: sort_step_simps length_sort_reverse)

lemma loop_body_first:
  "loop_body 0 s =
     Inr ((sort_step s)
       \<lparr>printed := printed s @
            [(''Starting state (Day 1):'',
              print_videos_summary (map (objs s) (videos (sort_step s))))],
        prev_order := Some (enumerate 0 (videos (sort_step s))),
        objs := fast_forward_all (videos (sort_step s)) (objs s)\<rparr>)"
  by (simp add: loop_body_def Let_def report_first sort_step_simps)

lemma loop_body_later:
  assumes "0 < day" "prev_order s = Some (enumerate 0 ps)" "length ps = length (videos s)"
  shows "loop_body day s =
     Inr ((sort_step s)
       \<lparr>printed := printed s @
            (if map (\<lambda>r. title (objs s r)) ps \<noteq> map (\<lambda>r. title (objs s r)) (videos (sort_step s))
             then [(''Day '' @ str_nat (day + 1) @ '':'',
                    print_videos_summary (map (objs s) (videos (sort_step s))))]
             else []),
        prev_order := Some (enumerate 0 (videos (sort_step s))),
        objs := fast_forward_all (videos (sort_step s)) (objs s)\<rparr>)"
proof -
  have "report day (sort_step s) =
           Inr (if map (\<lambda>r. title (objs (sort_step s) r)) ps \<noteq>
                   map (\<lambda>r. title (objs (sort_step s) r)) (videos (sort_step s))
                then [(''Day '' @ str_nat (day + 1) @ '':'',
                       print_videos_summary (map (objs (sort_step s)) (videos (sort_step s))))]
                else [])"
    using assms by (intro report_later) (simp_all add: sort_step_simps length_sort_reverse)
  then show ?thesis
    by (simp add: loop_body_def Let_def sort_step_simps)
qed

lemma loop_body_returns:
  assumes "day = 0 \<or> prev_order s = Some (enumerate 0 (videos s))"
  shows "\<exists>s'. loop_body day s = Inr s' \<and> prev_order s' = Some (enumerate 0 (videos s'))
            \<and> videos s' = videos (sort_step s)
            \<and> objs s' = fast_forward_all (videos (sort_step s)) (objs s)
            \<and> (\<exists>out. printed s' = printed s @ out)"
proof (cases "day = 0")
  case True
  then show ?thesis by (simp add: loop_body_first)
next
  case False
  with assms have p: "prev_order s = Some (enumerate 0 (videos s))" and d: "0 < day"
    by simp_all
  show ?thesis
    by (simp add: loop_body_later [OF d p refl])
qed

lemma run_days_returns:
  assumes "ds = [] \<or> hd ds = 0 \<or> prev_order s = Some (enumerate 0 (videos s))"
  shows "\<exists>s'. run_days ds s = Inr s' \<and> (\<exists>out. printed s' = printed s @ out)
            \<and> length (videos s') = length (videos s)"
  using assms
proof (induction ds arbitrary: s)
  case Nil
  then show ?case by simp
next
  case (Cons d ds)
  from Cons.prems have "d = 0 \<or> prev_order s = Some (enumerate 0 (videos s))"
    by simp
  from loop_body_returns [OF this] obtain s1 out1 where
    s1: "loop_body d s = Inr s1" "prev_order s1 = Some (enumerate 0 (videos s1))"
        "printed s1 = printed s @ out1" "videos s1 = videos (sort_step s)"
    by blast
  from Cons.IH [of s1] s1(2) obtain s' out where
    "run_days ds s1 = Inr s'" "printed s' = printed s1 @ out"
    "length (videos s') = length (videos s1)"
    by blast
  with s1 show ?case by (simp add: length_sort_step)
qed

lemma track_changes_returns: "\<exists>s'. track_changes h vs n = Inr s'"
proof -
  have "[0..<n] = [] \<or> hd [0..<n] = 0 \<or>
        prev_order \<lparr>objs = h, videos = vs, prev_order = None, printed = []\<rparr> =
          Some (enumerate 0 (videos \<lparr>objs = h, videos = vs, prev_order = None, printed = []\<rparr>))"
    by (cases n) (simp_all add: upt_conv_Cons del: upt_Suc)
  from run_days_returns [OF this] show ?thesis
    unfolding track_changes_def by blast
qed

lemma settled_sort_step:
  assumes "settled s"
  shows "videos (sort_step s) = videos s"
proof -
  from assms have "sorted_wrt (\<lambda>a b. views (objs s b) \<le> views (objs s a)) (videos s)"
    unfolding settled_def by (auto elim: sorted_wrt_mono_rel [rotated])
  then show ?thesis
    by (simp add: sort_step_simps sort_reverse_id)
qed

lemma settled_loop_body:
  assumes "settled s" "0 < day"
  shows "\<exists>s'. loop_body day s = Inr s' \<and> settled s' \<and> printed s' = printed s \<and>
           videos s' = videos s"
proof -
  from assms have p: "prev_order s = Some (enumerate 0 (videos s))"
    and dist: "distinct (videos s)"
    and sorted: "sorted_wrt (\<lambda>a b. views (objs s b) \<le> views (objs s a) \<and>
                       avg_views (objs s b) \<le> avg_views (objs s a)) (videos s)"
    by (simp_all add: settled_def)
  note same = settled_sort_step [OF assms(1)]
  define h' where "h' = fast_forward_all (videos s) (objs s)"
  define s' where "s' = (sort_step s)\<lparr>printed := printed s @ [],
        prev_order := Some (enumerate 0 (videos s)), objs := h'\<rparr>"
  have body: "loop_body day s = Inr s'"
    using loop_body_later [OF assms(2) p refl] by (simp add: same s'_def h'_def)
  have v: "videos s' = videos s"
    by (simp add: s'_def same)
  have pr: "printed s' = printed s"
    and o: "objs s' = h'" and p': "prev_order s' = Some (enumerate 0 (videos s))"
    by (simp_all add: s'_def)
  have "sorted_wrt (\<lambda>a b. views (h' b) \<le> views (h' a) \<and>
                       avg_views (h' b) \<le> avg_views (h' a)) (videos s)"
  proof (rule sorted_wrt_mono_rel [OF _ sorted])
    fix a b
    assume "a \<in> set (videos s)" "b \<in> set (videos s)"
      and "views (objs s b) \<le> views (objs s a) \<and>
           avg_views (objs s b) \<le> avg_views (objs s a)"
    then show "views (h' b) \<le> views (h' a) \<and> avg_views (h' b) \<le> avg_views (h' a)"
      by (simp add: h'_def fast_forward_all_distinct [OF dist] fast_forward_mono
          fast_forward_same)
  qed
  then have "settled s'"
    by (simp add: settled_def v o p' dist)
  with body v pr show ?thesis by blast
qed

lemma settled_run_days:
  assumes "settled s" "0 \<notin> set ds"
  shows "\<exists>s'. run_days ds s = Inr s' \<and> settled s' \<and> printed s' = printed s \<and>
           videos s' = videos s"
  using assms
proof (induction ds arbitrary: s)
  case Nil
  then show ?case by simp
next
  case (Cons d ds)
  then have "0 < d" by simp
  from settled_loop_body [OF Cons.prems(1) this] obtain s1 where
    s1: "loop_body d s = Inr s1" "settled s1" "printed s1 = printed s" "videos s1 = videos s"
    by blast
  from Cons.IH [OF s1(2)] Cons.prems(2) obtain s' where
    "run_days ds s1 = Inr s'" "settled s'" "printed s' = printed s1" "videos s' = videos s1"
    by auto
  with s1 show ?case by simp
qed

lemma run_days_upt: "k < n \<Longrightarrow> run_days [k..<n] s =
    (case loop_body k s of Inl e \<Rightarrow> Inl e | Inr s' \<Rightarrow> run_days [Suc k..<n] s')"
  by (simp add: upt_conv_Cons del: upt_Suc)

lemma settled_run_upt:
  assumes "settled s" "0 < k"
  shows "\<exists>s'. run_days [k..<n] s = Inr s' \<and> settled s' \<and> printed s' = printed s \<and>
           videos s' = videos s"
  using assms by (intro settled_run_days) simp_all

lemma run_days_append:
  "run_days (xs @ ys) s = (case run_days xs s of Inl e \<Rightarrow> Inl e | Inr s' \<Rightarrow> run_days ys s')"
  by (induction xs arbitrary: s) (simp_all split: sum.splits)

lemma sort_reverse_two:
  "sort_reverse key [x, y] = (if key x < key y then [y, x] else [x, y])"
  by (auto simp: sort_reverse_def)

lemma str_nat_digit: "n < 10 \<Longrightarrow> str_nat n = [''0123456789'' ! n]"
  by (simp add: str_nat.simps)

lemma two_videos_four_days:
  assumes "a \<noteq> b"
    and "title (h a) = ''A''" "views (h a) = 100" "avg_views (h a) = 1"
    and "title (h b) = ''B''" "views (h b) = 90" "avg_views (h b) = 5"
    and "vs = [a, b] \<or> vs = [b, a]"
  shows "\<exists>s'. run_days [0, 1, 2, 3] \<lparr>objs = h, videos = vs, prev_order = None, printed = []\<rparr> = Inr s'
     \<and> settled s' \<and>
     printed s' = [(''Starting state (Day 1):'', [(1, ''A'', 100), (2, ''B'', 90)]),
                   (''Day 4:'', [(1, ''B'', 105), (2, ''A'', 103)])]"
  using assms
  apply (elim disjE)
   apply (simp_all add: loop_body_def Let_def sort_step_def sort_reverse_two report_def
    fast_forward_all_def fast_forward_def print_videos_summary_def Video_str_def py_int_def
    enumerate_eq_zip str_nat_digit settled_def)
  done

lemma first_day_then:
  assumes "0 < n"
  shows "track_changes h vs n =
     run_days [1..<n]
       \<lparr>objs = fast_forward_all (sort_reverse (\<lambda>vid. views (h vid)) vs) h,
        videos = sort_reverse (\<lambda>vid. views (h vid)) vs,
        prev_order = Some (enumerate 0 (sort_reverse (\<lambda>vid. views (h vid)) vs)),
        printed = [(''Starting state (Day 1):'',
                    print_videos_summary (map h (sort_reverse (\<lambda>vid. views (h vid)) vs)))]\<rparr>"
  using assms
  by (simp add: track_changes_def run_days_upt loop_body_first sort_step_def)

lemma run_after_four_days:
  assumes "4 \<le> n" "run_days [0, 1, 2, 3] s = Inr s4" "settled s4"
  shows "\<exists>s'. run_days [0..<n] s = Inr s' \<and> printed s' = printed s4"
proof -
  from assms(1) have "[0..<n] = [0, 1, 2, 3] @ [4..<n]"
    by (simp add: upt_conv_Cons eval_nat_numeral del: upt_Suc)
  then have "run_days [0..<n] s = run_days [4..<n] s4"
    using assms(2) by (simp only: run_days_append sum.case)
  with settled_run_upt [OF assms(3), of 4 n] show ?thesis
    by auto
qed

lemma summary_two:
  "print_videos_summary [v, w] =
     [(1, title v, py_int (views v)), (2, title w, py_int (views w))]"
  by (simp add: print_videos_summary_def Video_str_def enumerate_eq_zip)

lemma py_int_of_int: "py_int (of_int k) = k"
  by (simp add: py_int_def)

lemma py_int_numeral: "py_int (numeral k) = numeral k"
  using py_int_of_int [of "numeral k"] by simp

lemma Video_init_sample_A: "Video_init 1000 ''A'' 100 900 = Inr sample_A"
  by (simp add: Video_init_def int_truediv_in_range years_up_small sample_A_def)

lemma Video_init_sample_B: "Video_init 1000 ''B'' 90 982 = Inr sample_B"
  by (simp add: Video_init_def int_truediv_in_range years_up_small sample_B_def)

lemma fast_forward_iterate:
  "avg_views (((\<lambda>w. fast_forward w 1) ^^ k) v) = avg_views v"
  by (induction k) (simp_all add: fast_forward_same)

lemma fast_forward_iterate_rounded:
  "binary64 (views (((\<lambda>w. fast_forward w 1) ^^ Suc k) v)) =
     views (((\<lambda>w. fast_forward w 1) ^^ Suc k) v)"
  by (simp add: fast_forward_rounded)

section \<open>The constructor\<close>

text \<open>
  C7. A video uploaded on the reference date (\<open>days_up = 0\<close>) is not constructed: the
  constructor raises \<open>ZeroDivisionError\<close>. Every video the constructor returns has a
  \<open>days_up\<close> other than zero, and the rounded quotient of its views by \<open>days_up\<close> as its
  \<open>avg_views\<close>.
\<close>

theorem Video_init_zero_age:
  "Video_init TODAY t m TODAY = Inl ZeroDivisionError \<and>
   (\<forall>d v. Video_init TODAY t m d = Inr v \<longrightarrow>
      days_up v = TODAY - d \<and> days_up v \<noteq> 0 \<and>
      avg_views v = binary64 (of_int m / of_int (days_up v)))"
  by (auto simp: Video_init_def int_truediv_def Let_def split: sum.splits if_splits)

theorem Video_init_zero_age_witness:
  "Video_init 20 ''a'' 100 20 = Inl ZeroDivisionError \<and>
   Video_init 20 ''a'' 100 10 =
     Inr \<lparr>title = ''a'', views = 100, upload_date = 10, days_up = 10, years_up = 0,
          avg_views = 10\<rparr> \<and>
   days_up \<lparr>title = ''a'', views = 100, upload_date = 10, days_up = 10, years_up = 0,
          avg_views = 10\<rparr> \<noteq> 0"
proof -
  have c: "Video_init 20 ''a'' 100 10 =
     Inr \<lparr>title = ''a'', views = 100, upload_date = 10, days_up = 10, years_up = 0,
          avg_views = 10\<rparr>"
    by (simp add: Video_init_def int_truediv_in_range years_up_small)
  from Video_init_zero_age [of 20 "''a''" 100] c show ?thesis
    by (metis Video.select_convs(4))
qed

section \<open>The sort of every day\<close>

text \<open>
  C6. On every day the loop runs, the list after the sort of line 123 is in descending
  order of the views the videos have at that moment, it holds the same references as
  before, and the videos of any one view count stand in the order they had before the
  sort.
\<close>

theorem sort_step_sorted_stable:
  "loop_body day s = Inr s' \<longrightarrow>
     videos s' = videos (sort_step s) \<and>
     sorted_wrt (\<lambda>a b. views (objs s b) \<le> views (objs s a)) (videos (sort_step s)) \<and>
     (\<forall>m. filter (\<lambda>r. views (objs s r) = m) (videos (sort_step s)) =
          filter (\<lambda>r. views (objs s r) = m) (videos s)) \<and>
     mset (videos (sort_step s)) = mset (videos s)"
proof
  assume b: "loop_body day s = Inr s'"
  have v: "videos s' = videos (sort_step s)"
    using b by (auto simp: loop_body_def Let_def split: sum.splits)
  show "videos s' = videos (sort_step s) \<and>
     sorted_wrt (\<lambda>a b. views (objs s b) \<le> views (objs s a)) (videos (sort_step s)) \<and>
     (\<forall>m. filter (\<lambda>r. views (objs s r) = m) (videos (sort_step s)) =
          filter (\<lambda>r. views (objs s r) = m) (videos s)) \<and>
     mset (videos (sort_step s)) = mset (videos s)"
    using v
    by (simp add: sort_step_simps sort_reverse_sorted sort_reverse_stable mset_sort_reverse)
qed

theorem sort_step_sorted_stable_witness:
  "\<exists>s'. loop_body 0 sample_sim = Inr s' \<and> videos s' = [1, 0, 2] \<and>
      sorted_wrt (\<lambda>a b. views (objs sample_sim b) \<le> views (objs sample_sim a)) [1, 0, 2] \<and>
      filter (\<lambda>r. views (objs sample_sim r) = 40) [1, 0, 2] = [0, 2] \<and>
      mset [1, 0, 2] = mset (videos sample_sim)"
proof -
  have "0 = (0::nat) \<or> prev_order sample_sim = Some (enumerate 0 (videos sample_sim))"
    by simp
  from loop_body_returns [OF this] obtain s' where s': "loop_body 0 sample_sim = Inr s'"
    by blast
  have e: "videos (sort_step sample_sim) = [1, 0, 2]"
    by (simp add: sort_step_def sort_reverse_def sample_sim_def sample_B_def sample_C_def)
  have f: "filter (\<lambda>r. views (objs sample_sim r) = 40) (videos sample_sim) = [0, 2]"
    by (simp add: sample_sim_def sample_B_def sample_C_def)
  from sort_step_sorted_stable [of 0 sample_sim s'] s'
  have "videos s' = [1, 0, 2]"
    and "sorted_wrt (\<lambda>a b. views (objs sample_sim b) \<le> views (objs sample_sim a)) [1, 0, 2]"
    and "filter (\<lambda>r. views (objs sample_sim r) = 40) [1, 0, 2] =
         filter (\<lambda>r. views (objs sample_sim r) = 40) (videos sample_sim)"
    and "mset [1, 0, 2] = mset (videos sample_sim)"
    unfolding e by blast+
  with s' f show ?thesis
    by (intro exI [of _ s']) simp
qed

section \<open>The order kept for the comparison\<close>

text \<open>
  C5. Whatever a day prints, at its end \<^verbatim>\<open>prev_order\<close> maps every position to the
  reference at that position of the day's sorted list. So the next day prints a report
  exactly when its sorted list differs in some title from the list of the day before.
\<close>

theorem prev_order_every_day:
  "(loop_body day s = Inr s1 \<longrightarrow>
      prev_order s1 = Some (enumerate 0 (videos s1)) \<and> videos s1 = videos (sort_step s)) \<and>
   (loop_body day s = Inr s1 \<and> loop_body (Suc day) s1 = Inr s2 \<longrightarrow>
      printed s2 = printed s1 @
        (if map (\<lambda>r. title (objs s1 r)) (videos s1) \<noteq> map (\<lambda>r. title (objs s1 r)) (videos s2)
         then [(''Day '' @ str_nat (day + 2) @ '':'',
                print_videos_summary (map (objs s1) (videos s2)))]
         else []))"
proof -
  have a: "prev_order s1 = Some (enumerate 0 (videos s1)) \<and> videos s1 = videos (sort_step s)"
    if "loop_body day s = Inr s1"
    using that by (auto simp: loop_body_def Let_def split: sum.splits)
  have b: "printed s2 = printed s1 @
        (if map (\<lambda>r. title (objs s1 r)) (videos s1) \<noteq> map (\<lambda>r. title (objs s1 r)) (videos s2)
         then [(''Day '' @ str_nat (day + 2) @ '':'',
                print_videos_summary (map (objs s1) (videos s2)))]
         else [])"
    if 1: "loop_body day s = Inr s1" and 2: "loop_body (Suc day) s1 = Inr s2"
  proof -
    from a [OF 1] have p: "prev_order s1 = Some (enumerate 0 (videos s1))" by simp
    have "0 < Suc day" by simp
    from loop_body_later [OF this p refl] 2 show ?thesis
      by auto
  qed
  from a b show ?thesis by blast
qed

theorem prev_order_every_day_witness:
  "\<exists>s1 s2. loop_body 2 sample_day_3 = Inr s1 \<and> loop_body 3 s1 = Inr s2 \<and>
      printed s1 = [] \<and> videos s1 = [1, 0] \<and> prev_order s1 = Some [(0, 1), (1, 0)] \<and>
      videos s2 = [0, 1] \<and> prev_order s2 = Some [(0, 0), (1, 1)] \<and>
      printed s2 = [(''Day 4:'', [(1, ''B'', 105), (2, ''A'', 103)])]"
proof -
  have p: "prev_order sample_day_3 = Some (enumerate 0 [1, 0])"
    by (simp add: sample_day_3_def)
  have l: "length [1, 0::nat] = length (videos sample_day_3)"
    by (simp add: sample_day_3_def)
  have v: "videos (sort_step sample_day_3) = [1, 0]"
    by (simp add: sort_step_def sort_reverse_two sample_day_3_def sample_A_def sample_B_def)
  define s1 where "s1 = sample_day_3
       \<lparr>prev_order := Some (enumerate 0 [1, 0]),
        objs := fast_forward_all [1, 0] (objs sample_day_3)\<rparr>"
  have b1: "loop_body 2 sample_day_3 = Inr s1"
    using loop_body_later [of 2, OF _ p l]
    by (simp add: v s1_def sort_step_def sort_reverse_two sample_day_3_def sample_A_def
        sample_B_def)
  have s1: "printed s1 = []" "videos s1 = [1, 0]" "views (objs s1 0) = 105"
    "views (objs s1 (Suc 0)) = 103" "title (objs s1 0) = ''B''"
    "title (objs s1 (Suc 0)) = ''A''"
    by (simp_all add: s1_def sample_day_3_def fast_forward_all_def fast_forward_def
        sample_A_def sample_B_def)
  have "Suc 2 = 0 \<or> prev_order s1 = Some (enumerate 0 (videos s1))"
    by (simp add: s1_def sample_day_3_def)
  from loop_body_returns [OF this] obtain s2 where
    b2: "loop_body (Suc 2) s1 = Inr s2" and v2: "videos s2 = videos (sort_step s1)"
    by blast
  have v2': "videos s2 = [0, 1]"
    by (simp add: v2 sort_step_def sort_reverse_two s1)
  from prev_order_every_day [of 2 sample_day_3 s1 s2] b1 b2
  have "prev_order s1 = Some (enumerate 0 (videos s1))"
    and "printed s2 = printed s1 @
        (if map (\<lambda>r. title (objs s1 r)) (videos s1) \<noteq> map (\<lambda>r. title (objs s1 r)) (videos s2)
         then [(''Day '' @ str_nat (2 + 2) @ '':'',
                print_videos_summary (map (objs s1) (videos s2)))]
         else [])"
    by blast+
  moreover from prev_order_every_day [of 3 s1 s2] b2
  have "prev_order s2 = Some (enumerate 0 (videos s2))"
    by simp
  ultimately have "prev_order s1 = Some [(0, 1), (1, 0)]"
    "prev_order s2 = Some [(0, 0), (1, 1)]"
    "printed s2 = [(''Day 4:'', [(1, ''B'', 105), (2, ''A'', 103)])]"
    by (simp_all add: s1 v2' summary_two py_int_numeral str_nat_digit)
  with b1 b2 s1 v2' show ?thesis
    by (intro exI [of _ s1] exI [of _ s2]) simp
qed

text \<open>
  C8. On a day after the first, when the sorted list is the list of the day before with
  two positions exchanged, and the videos at these two positions have the same title,
  nothing is printed.
\<close>

theorem same_title_swap_unreported:
  assumes "0 < day"
    and "prev_order s = Some (enumerate 0 ps)"
    and "i < length ps" "j < length ps"
    and "title (objs s (ps ! i)) = title (objs s (ps ! j))"
    and "videos (sort_step s) = ps[i := ps ! j, j := ps ! i]"
  shows "\<exists>s'. loop_body day s = Inr s' \<and> printed s' = printed s \<and>
           videos s' = ps[i := ps ! j, j := ps ! i]"
proof -
  have "length (videos (sort_step s)) = length ps"
    by (simp add: assms(6))
  then have len: "length ps = length (videos s)"
    by (simp add: length_sort_step)
  have "map (\<lambda>r. title (objs s r)) (ps[i := ps ! j, j := ps ! i]) = map (\<lambda>r. title (objs s r)) ps"
    using assms(3,4,5) by (auto simp: list_eq_iff_nth_eq nth_list_update)
  then show ?thesis
    using loop_body_later [OF assms(1,2) len] by (simp add: assms(6))
qed

theorem same_title_swap_unreported_witness:
  "prev_order sample_twins = Some (enumerate 0 [1, 0]) \<and>
   title (objs sample_twins 1) = title (objs sample_twins 0) \<and>
   views (objs sample_twins 1) < views (objs sample_twins 0) \<and>
   (\<exists>s'. loop_body 3 sample_twins = Inr s' \<and> printed s' = printed sample_twins \<and>
      videos s' = [0, 1])"
proof -
  have d: "(0::nat) < 3" by simp
  have p: "prev_order sample_twins = Some (enumerate 0 [1, 0])"
    by (simp add: sample_twins_def)
  have i: "0 < length [1, 0::nat]" and j: "1 < length [1, 0::nat]"
    by simp_all
  have t: "title (objs sample_twins ([1, 0] ! 0)) = title (objs sample_twins ([1, 0] ! 1))"
    by (simp add: sample_twins_def sample_A_def sample_B_def)
  have v: "videos (sort_step sample_twins) = [1, 0] [0 := [1, 0] ! 1, 1 := [1, 0] ! 0]"
    by (simp add: sort_step_def sort_reverse_two sample_twins_def sample_A_def sample_B_def)
  have m: "views (objs sample_twins 1) < views (objs sample_twins 0)"
    by (simp add: sample_twins_def sample_A_def sample_B_def)
  from same_title_swap_unreported [OF d p i j t v] p t m show ?thesis
    by simp
qed

section \<open>Whole runs\<close>

text \<open>
  C4. For a list that is not empty and at least one day, \<^verbatim>\<open>track_changes\<close> returns, and
  the first thing it has printed is the snapshot headed \<^verbatim>\<open>Starting state (Day 1):\<close> with
  all the videos in descending order of their views; with one day, nothing else is
  printed.
\<close>

theorem first_snapshot_always:
  assumes "vs \<noteq> []" "1 \<le> n"
  shows "\<exists>s' rest. track_changes h vs n = Inr s' \<and>
     printed s' = (''Starting state (Day 1):'',
                   print_videos_summary (map h (sort_reverse (\<lambda>vid. views (h vid)) vs))) # rest \<and>
     (n = 1 \<longrightarrow> rest = []) \<and>
     mset (sort_reverse (\<lambda>vid. views (h vid)) vs) = mset vs \<and>
     sorted_wrt (\<lambda>a b. views (h b) \<le> views (h a)) (sort_reverse (\<lambda>vid. views (h vid)) vs)"
proof -
  define s1 where "s1 =
       \<lparr>objs = fast_forward_all (sort_reverse (\<lambda>vid. views (h vid)) vs) h,
        videos = sort_reverse (\<lambda>vid. views (h vid)) vs,
        prev_order = Some (enumerate 0 (sort_reverse (\<lambda>vid. views (h vid)) vs)),
        printed = [(''Starting state (Day 1):'',
                    print_videos_summary (map h (sort_reverse (\<lambda>vid. views (h vid)) vs)))]\<rparr>"
  from assms(2) have t: "track_changes h vs n = run_days [1..<n] s1"
    unfolding s1_def by (intro first_day_then) simp
  have "[1..<n] = [] \<or> hd [1..<n] = 0 \<or> prev_order s1 = Some (enumerate 0 (videos s1))"
    by (simp add: s1_def)
  from run_days_returns [OF this] obtain s' out where
    r: "run_days [1..<n] s1 = Inr s'" "printed s' = printed s1 @ out"
    by blast
  have "n = 1 \<longrightarrow> out = []"
    using r by auto
  with t r show ?thesis
    by (simp add: s1_def mset_sort_reverse sort_reverse_sorted)
qed

theorem first_snapshot_always_witness:
  "[0::nat, 1] \<noteq> [] \<and> (1::nat) \<le> 1 \<and>
   (\<exists>s'. track_changes ((\<lambda>_. sample_B)(1 := sample_A)) [0, 1] 1 = Inr s' \<and>
      printed s' = [(''Starting state (Day 1):'', [(1, ''A'', 100), (2, ''B'', 90)])])"
proof -
  let ?h = "(\<lambda>_. sample_B)(1 := sample_A)"
  have h1: "[0::nat, 1] \<noteq> []" and h2: "(1::nat) \<le> 1"
    by simp_all
  have e: "print_videos_summary (map ?h (sort_reverse (\<lambda>vid. views (?h vid)) [0::nat, 1])) =
      [(1, ''A'', 100), (2, ''B'', 90)]"
    by (simp add: sort_reverse_two summary_two py_int_numeral sample_A_def sample_B_def)
  from first_snapshot_always [OF h1 h2, of ?h] obtain s' rest where
    "track_changes ?h [0, 1] 1 = Inr s'"
    "printed s' = (''Starting state (Day 1):'',
        print_videos_summary (map ?h (sort_reverse (\<lambda>vid. views (?h vid)) [0::nat, 1]))) # rest"
    "rest = []"
    by blast
  with e h1 h2 show ?thesis
    by simp
qed

text \<open>
  C3. When all the videos have the same daily average and their views are pairwise
  different, a run of any number of days (at least one) prints the starting snapshot
  and nothing else.
\<close>

theorem equal_growth_one_snapshot:
  assumes "vs \<noteq> []"
    and "\<forall>r \<in> set vs. avg_views (h r) = g"
    and "distinct (map (\<lambda>r. views (h r)) vs)"
    and "1 \<le> n"
  shows "\<exists>s'. track_changes h vs n = Inr s' \<and>
     printed s' = [(''Starting state (Day 1):'',
                    print_videos_summary (map h (sort_reverse (\<lambda>vid. views (h vid)) vs)))]"
proof -
  define vs' where "vs' = sort_reverse (\<lambda>vid. views (h vid)) vs"
  define s1 where "s1 =
       \<lparr>objs = fast_forward_all vs' h, videos = vs', prev_order = Some (enumerate 0 vs'),
        printed = [(''Starting state (Day 1):'', print_videos_summary (map h vs'))]\<rparr>"
  from assms(4) have t: "track_changes h vs n = run_days [1..<n] s1"
    unfolding s1_def vs'_def by (intro first_day_then) simp
  from assms(3) have "distinct vs"
    by (simp add: distinct_map)
  then have dist: "distinct vs'"
    by (simp add: vs'_def distinct_sort_reverse)
  have set: "set vs' = set vs"
    by (simp add: vs'_def set_sort_reverse)
  have "sorted_wrt (\<lambda>a b. views (h b) \<le> views (h a)) vs'"
    unfolding vs'_def by (rule sort_reverse_sorted)
  then have "sorted_wrt (\<lambda>a b. views (fast_forward_all vs' h b) \<le> views (fast_forward_all vs' h a)
                \<and> avg_views (fast_forward_all vs' h b) \<le> avg_views (fast_forward_all vs' h a)) vs'"
  proof (rule sorted_wrt_mono_rel [rotated])
    fix a b
    assume "a \<in> set vs'" "b \<in> set vs'" "views (h b) \<le> views (h a)"
    then show "views (fast_forward_all vs' h b) \<le> views (fast_forward_all vs' h a)
                \<and> avg_views (fast_forward_all vs' h b) \<le> avg_views (fast_forward_all vs' h a)"
      using assms(2) set
      by (simp add: fast_forward_all_distinct [OF dist] fast_forward_mono fast_forward_same)
  qed
  then have "settled s1"
    by (simp add: settled_def s1_def dist)
  from settled_run_upt [OF this, of 1 n] t show ?thesis
    by (auto simp: s1_def vs'_def)
qed

theorem equal_growth_one_snapshot_witness:
  "[0::nat, 1] \<noteq> [] \<and>
   avg_views (((\<lambda>_. sample_C)(1 := sample_B)) (0::nat)) = 5 \<and>
   avg_views (((\<lambda>_. sample_C)(1 := sample_B)) (1::nat)) = 5 \<and>
   distinct (map (\<lambda>r. views (((\<lambda>_. sample_C)(1 := sample_B)) r)) [0::nat, 1]) \<and>
   (1::nat) \<le> 30 \<and>
   (\<exists>s'. track_changes ((\<lambda>_. sample_C)(1 := sample_B)) [0, 1] 30 = Inr s' \<and>
      printed s' = [(''Starting state (Day 1):'', [(1, ''B'', 90), (2, ''C'', 40)])])"
proof -
  let ?h = "(\<lambda>_. sample_C)(1 := sample_B)"
  have h1: "[0::nat, 1] \<noteq> []" and h4: "(1::nat) \<le> 30"
    by simp_all
  have h2: "\<forall>r \<in> set [0::nat, 1]. avg_views (?h r) = 5"
    by (simp add: sample_B_def sample_C_def)
  have h3: "distinct (map (\<lambda>r. views (?h r)) [0::nat, 1])"
    by (simp add: sample_B_def sample_C_def)
  have e: "print_videos_summary (map ?h (sort_reverse (\<lambda>vid. views (?h vid)) [0::nat, 1])) =
      [(1, ''B'', 90), (2, ''C'', 40)]"
    by (simp add: sort_reverse_two summary_two py_int_numeral sample_C_def sample_B_def)
  from equal_growth_one_snapshot [OF h1 h2 h3 h4] obtain s' where
    "track_changes ?h [0, 1] 30 = Inr s'"
    "printed s' = [(''Starting state (Day 1):'',
        print_videos_summary (map ?h (sort_reverse (\<lambda>vid. views (?h vid)) [0::nat, 1])))]"
    by blast
  with e h1 h2 h3 h4 show ?thesis
    by (intro conjI exI [of _ s']) simp_all
qed

text \<open>
  C2. For the two videos A (100 views, 1 a day) and B (90 views, 5 a day), in either
  order, a run of four days or more prints exactly two snapshots: the starting snapshot
  with A first, and the snapshot headed \<^verbatim>\<open>Day 4:\<close> with B first. Nothing is printed on
  the second and third day, and nothing after the fourth.
\<close>

theorem two_videos_swap_on_day_4:
  assumes "a \<noteq> b"
    and "title (h a) = ''A''" "views (h a) = 100" "avg_views (h a) = 1"
    and "title (h b) = ''B''" "views (h b) = 90" "avg_views (h b) = 5"
    and "vs = [a, b] \<or> vs = [b, a]"
    and "4 \<le> n"
  shows "\<exists>s'. track_changes h vs n = Inr s' \<and>
     printed s' = [(''Starting state (Day 1):'', [(1, ''A'', 100), (2, ''B'', 90)]),
                   (''Day 4:'', [(1, ''B'', 105), (2, ''A'', 103)])]"
proof -
  from two_videos_four_days [OF assms(1-8)] obtain s4 where
    s4: "run_days [0, 1, 2, 3] \<lparr>objs = h, videos = vs, prev_order = None, printed = []\<rparr> = Inr s4"
      "settled s4"
      "printed s4 = [(''Starting state (Day 1):'', [(1, ''A'', 100), (2, ''B'', 90)]),
                   (''Day 4:'', [(1, ''B'', 105), (2, ''A'', 103)])]"
    by blast
  from run_after_four_days [OF assms(9) s4(1,2)] s4(3) show ?thesis
    unfolding track_changes_def by simp
qed

theorem two_videos_swap_on_day_4_witness:
  "Video_init 1000 ''A'' 100 900 = Inr sample_A \<and>
   Video_init 1000 ''B'' 90 982 = Inr sample_B \<and>
   (\<exists>s'. track_changes ((\<lambda>_. sample_B)(1 := sample_A)) [0, 1] 10 = Inr s' \<and>
      printed s' = [(''Starting state (Day 1):'', [(1, ''A'', 100), (2, ''B'', 90)]),
                    (''Day 4:'', [(1, ''B'', 105), (2, ''A'', 103)])])"
proof -
  let ?h = "(\<lambda>_. sample_B)(1 := sample_A)"
  have ab: "(1::nat) \<noteq> 0" and vs: "[0, 1] = [1, 0] \<or> [0, 1] = [0, 1::nat]"
    and n: "(4::nat) \<le> 10"
    by simp_all
  have a: "title (?h (1::nat)) = ''A''" "views (?h (1::nat)) = 100"
    "avg_views (?h (1::nat)) = 1"
    by (simp_all add: sample_A_def)
  have b: "title (?h (0::nat)) = ''B''" "views (?h (0::nat)) = 90"
    "avg_views (?h (0::nat)) = 5"
    by (simp_all add: sample_B_def)
  from two_videos_swap_on_day_4 [OF ab a b vs n] Video_init_sample_A Video_init_sample_B
  show ?thesis
    by blast
qed

section \<open>The option for the number of days\<close>

text \<open>
  C9. \<^verbatim>\<open>main\<close> never reads the option \<^verbatim>\<open>-d\<close>: it calls \<^verbatim>\<open>track_changes(videos)\<close>, which
  runs the default of 100 days. Its result is the same whatever the option holds; with
  \<^verbatim>\<open>-d 1\<close> and the videos A and B, the report of day 4 is printed all the same.
\<close>

theorem main_ignores_days_option:
  "main TODAY files youtube (a\<lparr>arg_d := x\<rparr>) = main TODAY files youtube a \<and>
   (\<exists>s. main 1000 sample_files sample_youtube
           \<lparr>arg_json = ''videos.json'', arg_key = None, arg_d = Some 1\<rparr> = Inr (Tracked s) \<and>
        printed s = [(''Starting state (Day 1):'', [(1, ''A'', 100), (2, ''B'', 90)]),
                     (''Day 4:'', [(1, ''B'', 105), (2, ''A'', 103)])])"
proof
  show "main TODAY files youtube (a\<lparr>arg_d := x\<rparr>) = main TODAY files youtube a"
    by (simp add: main_def cong: option.case_cong)
next
  let ?h = "\<lambda>r. [sample_A, sample_B] ! r"
  have vids: "get_all (\<lambda>vid. get_video_details 1000 sample_youtube vid ''k'') [''a'', ''b''] =
      Inr [sample_A, sample_B]"
    by (simp add: get_video_details_def sample_youtube_def Video_init_sample_A Video_init_sample_B)
  have "\<exists>s4. run_days [0, 1, 2, 3]
            \<lparr>objs = ?h, videos = [0, 1], prev_order = None, printed = []\<rparr> = Inr s4 \<and>
          settled s4 \<and>
          printed s4 = [(''Starting state (Day 1):'', [(1, ''A'', 100), (2, ''B'', 90)]),
                        (''Day 4:'', [(1, ''B'', 105), (2, ''A'', 103)])]"
    by (rule two_videos_four_days [of 0 1]) (simp_all add: sample_A_def sample_B_def)
  then obtain s4 where s4:
    "run_days [0, 1, 2, 3] \<lparr>objs = ?h, videos = [0, 1], prev_order = None, printed = []\<rparr> = Inr s4"
    "settled s4"
    "printed s4 = [(''Starting state (Day 1):'', [(1, ''A'', 100), (2, ''B'', 90)]),
                   (''Day 4:'', [(1, ''B'', 105), (2, ''A'', 103)])]"
    by blast
  have "(4::nat) \<le> 100" by simp
  from run_after_four_days [OF this s4(1,2)] obtain s where
    "track_changes ?h [0, 1] 100 = Inr s" "printed s = printed s4"
    unfolding track_changes_def by blast
  with s4(3) vids
  show "\<exists>s. main 1000 sample_files sample_youtube
           \<lparr>arg_json = ''videos.json'', arg_key = None, arg_d = Some 1\<rparr> = Inr (Tracked s) \<and>
        printed s = [(''Starting state (Day 1):'', [(1, ''A'', 100), (2, ''B'', 90)]),
                     (''Day 4:'', [(1, ''B'', 105), (2, ''A'', 103)])]"
    by (simp add: main_def sample_files_def days_threshold_default_def upt_conv_Cons)
qed

section \<open>Views that go down\<close>

text \<open>
  A video uploaded after the reference date has a negative \<open>avg_views\<close>, of size \<open>G\<close>. The
  first call of \<^verbatim>\<open>fast_forward()\<close> converts the views to a \<^verbatim>\<open>float\<close> and subtracts \<open>G\<close>;
  every later call subtracts \<open>G\<close> from a \<^verbatim>\<open>float\<close>. As long as \<open>G\<close> is more
  than half the distance between the \<^verbatim>\<open>float\<close>s around the views, the rounded
  difference is below the views.
\<close>

lemma binary64_power2: "binary64 (2 powi q) = 2 powi q"
  using binary64_scaled [of 1 q] by simp

lemma first_step_down:
  assumes x: "0 < x" and G: "2 powi (ilog2 x - 22) \<le> G"
  shows "binary64 (binary64 x - G) < x"
proof -
  define e where "e = ilog2 x"
  define u :: rat where "u = 2 powi (e - 52)"
  define q where "q = x / u"
  have u: "0 < u" by (simp add: u_def)
  have xq: "x = q * u" using u by (simp add: q_def)
  from ilog2_bounds [OF x] have "2 powi e \<le> x" "x < 2 powi (e + 1)"
    by (simp_all add: e_def)
  moreover have "2 powi e = 2 ^ 52 * u" "2 powi (e + 1) = 2 ^ 53 * u"
    by (simp_all add: u_def power_int_diff power_int_add)
  ultimately have q: "2 ^ 52 \<le> q" "q < 2 ^ 53"
    using u by (simp_all add: q_def field_simps)
  have "x \<noteq> 0" using x by simp
  then have R: "binary64 x = of_int (round_half_even q) * u"
    using x by (simp add: binary64_def Let_def e_def u_def q_def)
  have "(of_int (round_half_even q) :: rat) \<le> of_int (\<lfloor>q\<rfloor> + 1)"
    using round_half_even_between [of q] by (simp only: of_int_le_iff)
  also have "\<dots> \<le> of_int (\<lceil>q\<rceil> - 1) + 2"
    by simp
  finally have "binary64 x \<le> (of_int (\<lceil>q\<rceil> - 1) + 2) * u"
    unfolding R using u by simp
  moreover have "2 * u \<le> G"
  proof -
    have "2 powi (e - 22) = 2 ^ 30 * u"
      by (simp add: u_def power_int_diff)
    with G u show ?thesis by (simp add: e_def)
  qed
  ultimately have le: "binary64 x - G \<le> of_int (\<lceil>q\<rceil> - 1) * u"
    by (simp add: algebra_simps)
  have "of_int 0 < q" "q \<le> of_int (2 ^ 53)"
    using q by simp_all
  then have "0 < \<lceil>q\<rceil>" "\<lceil>q\<rceil> \<le> 2 ^ 53"
    by (simp_all only: less_ceiling_iff ceiling_le_iff)
  then have "\<bar>\<lceil>q\<rceil> - 1\<bar> \<le> 2 ^ 53"
    by simp
  from binary64_scaled [OF this, of "e - 52"]
  have fx: "binary64 (of_int (\<lceil>q\<rceil> - 1) * u) = of_int (\<lceil>q\<rceil> - 1) * u"
    by (simp add: u_def)
  from binary64_mono [OF le] have "binary64 (binary64 x - G) \<le> of_int (\<lceil>q\<rceil> - 1) * u"
    by (simp only: fx)
  also have "\<dots> < q * u"
  proof -
    have "(of_int (\<lceil>q\<rceil> - 1) :: rat) < q"
      by simp linarith
    with u show ?thesis by simp
  qed
  finally show ?thesis
    by (simp only: xq [symmetric])
qed

lemma descent:
  fixes x :: "nat \<Rightarrow> rat" and G :: rat
  assumes rec: "\<And>k. x (Suc k) = binary64 (binary64 (x k) - G)"
    and x0: "0 < x 0"
    and G: "2 powi (ilog2 (x 0) - 22) \<le> G"
    and k: "k \<le> 2 ^ 51"
  shows "x (Suc k) < x k \<and> - (of_nat (Suc k) * (2 * G)) \<le> x (Suc k)"
proof -
  have Gpos: "0 < G"
    using G by (rule less_le_trans [rotated]) simp
  define P :: rat where "P = 2 powi (ilog2 G + 1)"
  from ilog2_bounds [OF Gpos] have GP: "G < P" "P \<le> 2 * G"
    by (simp_all add: P_def two_powi_add_1)
  have P: "0 < P" by (simp add: P_def)
  have mult: "binary64 (- (of_nat j * P)) = - (of_nat j * P)" if "j \<le> 2 ^ 53" for j :: nat
  proof -
    from that have "\<bar>int j\<bar> \<le> 2 ^ 53"
      by (metis abs_of_nat of_nat_le_iff of_nat_numeral of_nat_power)
    from binary64_scaled [OF this, of "ilog2 G + 1"] show ?thesis
      by (simp add: P_def binary64_minus)
  qed
  have big: "x 0 < 2 ^ 23 * G"
  proof -
    from ilog2_bounds [OF x0] have "x 0 < 2 powi (ilog2 (x 0) + 1)"
      by simp
    also have "\<dots> = 2 ^ 23 * 2 powi (ilog2 (x 0) - 22)"
      by (simp add: power_int_diff power_int_add)
    also have "\<dots> \<le> 2 ^ 23 * G"
      using G by simp
    finally show ?thesis .
  qed
  have first: "x (Suc 0) < x 0"
    unfolding rec using x0 G by (rule first_step_down)
  have inv: "binary64 (x j) = x j \<and> - (of_nat j * P) \<le> x j \<and> x j < x 0 \<and>
      x (Suc j) < x j"
    if "1 \<le> j" "j \<le> 2 ^ 51" for j
    using that
  proof (induction j rule: nat_induct_at_least)
    case base
    have r: "binary64 (x 1) = x 1"
      unfolding One_nat_def rec by (rule binary64_idem)
    have "0 \<le> binary64 (x 0)"
      using binary64_pos [OF x0] by simp
    with GP have "- (of_nat 1 * P) \<le> binary64 (x 0) - G"
      by simp
    from binary64_mono [OF this] mult [of 1] have lo: "- (of_nat 1 * P) \<le> x 1"
      unfolding One_nat_def rec by simp
    from first have hi: "x 1 < x 0" by simp
    have "\<bar>x 1\<bar> \<le> 2 ^ 52 * \<bar>- G\<bar>"
      using lo hi big GP Gpos by (simp add: abs_le_iff)
    with r have "binary64 (x 1 + - G) < x 1"
      using Gpos by (intro binary64_step_down) simp_all
    then have "x (Suc 1) < x 1"
      using rec [of 1] r by simp
    with r lo hi show ?case by simp
  next
    case (Suc j)
    then have j: "j \<le> 2 ^ 51" by simp
    from Suc.IH [OF j] have r: "binary64 (x j) = x j"
      and lo: "- (of_nat j * P) \<le> x j" and hi: "x j < x 0"
      and dec: "x (Suc j) < x j"
      by simp_all
    have r': "binary64 (x (Suc j)) = x (Suc j)"
      unfolding rec by (rule binary64_idem)
    from lo GP have "- (of_nat (Suc j) * P) \<le> binary64 (x j) - G"
      by (simp add: r algebra_simps)
    moreover from Suc.prems have "Suc j \<le> 2 ^ 53"
      by simp
    ultimately have lo': "- (of_nat (Suc j) * P) \<le> x (Suc j)"
      using binary64_mono [of "- (of_nat (Suc j) * P)" "binary64 (x j) - G"] mult [of "Suc j"]
      unfolding rec by simp
    from dec hi have hi': "x (Suc j) < x 0" by simp
    have "of_nat (Suc j) * P \<le> 2 ^ 51 * (2 * G)"
    proof (rule mult_mono)
      from Suc.prems show "(of_nat (Suc j) :: rat) \<le> 2 ^ 51"
        by (metis of_nat_le_iff of_nat_numeral of_nat_power)
    qed (use GP P in simp_all)
    with lo' hi' big Gpos have "\<bar>x (Suc j)\<bar> \<le> 2 ^ 52 * \<bar>- G\<bar>"
      by (simp add: abs_le_iff)
    with r' have "binary64 (x (Suc j) + - G) < x (Suc j)"
      using Gpos by (intro binary64_step_down) simp_all
    then have "x (Suc (Suc j)) < x (Suc j)"
      using rec [of "Suc j"] r' by simp
    with r' lo' hi' show ?case by simp
  qed
  have low: "- (of_nat (Suc j) * P) \<le> x (Suc j)"
    if "- (of_nat j * P) \<le> x j" "j \<le> 2 ^ 51" for j
  proof -
    from that(2) have j: "j \<le> 2 ^ 53" "Suc j \<le> 2 ^ 53"
      by simp_all
    from binary64_mono [OF that(1)] mult [OF j(1)] have "- (of_nat j * P) \<le> binary64 (x j)"
      by simp
    with GP have "- (of_nat (Suc j) * P) \<le> binary64 (x j) - G"
      by (simp add: algebra_simps)
    from binary64_mono [OF this] mult [OF j(2)] show ?thesis
      unfolding rec by simp
  qed
  have dec: "x (Suc k) < x k" and lok: "- (of_nat k * P) \<le> x k"
  proof -
    show "x (Suc k) < x k"
    proof (cases k)
      case 0
      with first show ?thesis by simp
    next
      case (Suc j)
      with k inv [of k] show ?thesis by simp
    qed
    show "- (of_nat k * P) \<le> x k"
    proof (cases k)
      case 0
      with x0 show ?thesis by simp
    next
      case (Suc j)
      with k inv [of k] show ?thesis by simp
    qed
  qed
  have "of_nat (Suc k) * P \<le> of_nat (Suc k) * (2 * G)"
    using GP by (intro mult_left_mono) simp_all
  then have "- (of_nat (Suc k) * (2 * G)) \<le> - (of_nat (Suc k) * P)"
    by (simp only: neg_le_iff_le)
  also note low [OF lok k]
  finally have "- (of_nat (Suc k) * (2 * G)) \<le> x (Suc k)" .
  with dec show ?thesis ..
qed

lemma date_difference:
  assumes "is_date TODAY" "is_date d"
  shows "\<bar>TODAY - d\<bar> \<le> 3652058"
  using assms unfolding is_date_def by linarith

lemma Video_init_in_range:
  assumes "is_date TODAY" "is_date d" "d \<noteq> TODAY" "0 \<le> m" "m < 2 ^ 971"
  shows "Video_init TODAY t m d =
     Inr \<lparr>title = t, views = of_int m, upload_date = d, days_up = TODAY - d,
          years_up = py_int (binary64 (of_int (TODAY - d) / of_int 365)),
          avg_views = binary64 (of_int m / of_int (TODAY - d))\<rparr>"
proof -
  have a: "TODAY - d \<noteq> 0" using assms(3) by simp
  then have "1 \<le> \<bar>TODAY - d\<bar>"
    by simp
  then have "(1::rat) \<le> of_int \<bar>TODAY - d\<bar>"
    by (simp only: of_int_1_le_iff)
  then have one: "(1::rat) \<le> \<bar>of_int (TODAY - d)\<bar>"
    by (simp only: of_int_abs)
  have "\<bar>(of_int (TODAY - d) :: rat) / of_int 365\<bar> \<le> \<bar>of_int (TODAY - d)\<bar>"
    by (simp add: field_simps)
  also have "\<dots> \<le> of_int 3652058"
    using date_difference [OF assms(1,2)] by (simp only: of_int_abs [symmetric] of_int_le_iff)
  also have "\<dots> \<le> (2 ^ 1023 :: rat)"
    by simp
  finally have y: "int_truediv (TODAY - d) 365 =
      Inr (binary64 (of_int (TODAY - d) / of_int 365))"
    by (intro int_truediv_in_range) simp_all
  have "\<bar>(of_int m :: rat) / of_int (TODAY - d)\<bar> = of_int m / \<bar>of_int (TODAY - d)\<bar>"
    using assms(4) by simp
  also have "\<dots> \<le> of_int m"
    using one assms(4) by (simp add: field_simps mult_le_cancel_left1)
  also have "\<dots> \<le> of_int (2 ^ 971)"
    using assms(5) by (simp only: of_int_le_iff)
  also have "\<dots> \<le> (2 ^ 1023 :: rat)"
    by simp
  finally have g: "int_truediv m (TODAY - d) = Inr (binary64 (of_int m / of_int (TODAY - d)))"
    using a by (intro int_truediv_in_range) simp_all
  show ?thesis
    by (simp add: Video_init_def Let_def y g del: of_int_diff of_int_numeral)
qed

lemma growth_at_least:
  assumes "0 < m" "0 < a" "a \<le> 2 ^ 22"
  shows "2 powi (ilog2 (of_int m) - 22) \<le> binary64 (of_int m / of_int a)"
proof -
  have m: "(0::rat) < of_int m" using assms(1) by simp
  from ilog2_bounds [OF m] have "2 powi ilog2 (of_int m) \<le> (of_int m :: rat)"
    by simp
  moreover have "(0::rat) < of_int a" "(of_int a :: rat) \<le> 2 ^ 22"
    using assms(2,3) by (simp, metis of_int_le_iff of_int_numeral of_int_power)
  ultimately have "2 powi ilog2 (of_int m) / 2 ^ 22 \<le> (of_int m :: rat) / of_int a"
    using assms(1) by (intro frac_le) simp_all
  then have "2 powi (ilog2 (of_int m) - 22) \<le> (of_int m :: rat) / of_int a"
    by (simp add: power_int_diff)
  from binary64_mono [OF this] show ?thesis
    by (simp only: binary64_power2)
qed

lemma binary64_minus_1 [simp]: "binary64 (- 1) = - 1"
  by (simp add: binary64_minus)

lemma overflow_example: "int_truediv (2 ^ 1100) (- 1) = Inl OverflowError"
proof -
  have "binary64 (of_int (- 1) * 2 powi 1100) = of_int (- 1) * 2 powi 1100"
    by (rule binary64_scaled) simp
  then have "binary64 (of_int (2 ^ 1100) / of_int (- 1)) = - (2 ^ 1100)"
    by simp
  then show ?thesis
    by (simp add: int_truediv_def del: of_int_power of_int_minus)
qed

lemma count_down:
  "k \<le> 9007199254740993 \<Longrightarrow>
     views (((\<lambda>w. fast_forward w 1) ^^ k) sample_one) = 1 - of_nat k"
proof (induction k)
  case 0
  then show ?case by (simp add: sample_one_def)
next
  case (Suc k)
  then have k: "k \<le> 9007199254740992" by simp
  with Suc.IH have v: "views (((\<lambda>w. fast_forward w 1) ^^ k) sample_one) = of_int (1 - int k)"
    by simp
  from k have "\<bar>1 - int k\<bar> \<le> 2 ^ 53" "\<bar>- int k\<bar> \<le> 2 ^ 53"
    by simp_all
  from binary64_of_int [OF this(1)] binary64_of_int [OF this(2)]
  have r: "binary64 (of_int (1 - int k)) = of_int (1 - int k)"
    "binary64 (of_int (- int k)) = of_int (- int k)"
    by simp_all
  have a: "avg_views (((\<lambda>w. fast_forward w 1) ^^ k) sample_one) = - 1"
    by (simp add: fast_forward_iterate sample_one_def)
  have "views (((\<lambda>w. fast_forward w 1) ^^ Suc k) sample_one) =
      binary64 (binary64 (of_int (1 - int k)) + binary64 (- 1))"
    by (simp only: funpow.simps o_apply fast_forward_one v a)
  also have "\<dots> = binary64 (of_int (1 - int k) + - 1)"
    by (simp only: r(1)) (simp add: binary64_minus)
  also have "of_int (1 - int k) + - 1 = (of_int (- int k) :: rat)"
    by simp
  also have "binary64 (of_int (- int k)) = 1 - of_nat (Suc k)"
    using r(2) by simp
  finally show ?case .
qed

lemma lost_step:
  "views (((\<lambda>w. fast_forward w 1) ^^ Suc 9007199254740993) sample_one) =
   views (((\<lambda>w. fast_forward w 1) ^^ 9007199254740993) sample_one)"
proof -
  have v: "views (((\<lambda>w. fast_forward w 1) ^^ 9007199254740993) sample_one) =
      - 9007199254740992"
    using count_down [of 9007199254740993] by simp
  have a: "avg_views (((\<lambda>w. fast_forward w 1) ^^ 9007199254740993) sample_one) = - 1"
    by (simp add: fast_forward_iterate sample_one_def)
  have t: "binary64 9007199254740993 = 9007199254740992"
    using binary64_eval [of 53 9007199254740993]
    by (simp add: round_half_even_numeral)
  have "views (((\<lambda>w. fast_forward w 1) ^^ Suc 9007199254740993) sample_one) =
      binary64 (binary64 (- 9007199254740992) + binary64 (- 1))"
    by (simp only: funpow.simps o_apply fast_forward_one v a)
  also have "\<dots> = - 9007199254740992"
    by (simp add: binary64_minus t)
  finally show ?thesis
    by (simp only: v)
qed

section \<open>Upload dates after the reference date\<close>

text \<open>
  C10. For dates that \<^verbatim>\<open>datetime.date\<close> can hold and views from 0 to below \<open>2 ^ 971\<close>, the
  constructor fails in the one case of an upload on the reference date. An upload date
  after the reference date raises nothing: the constructor returns a video with a negative
  \<open>days_up\<close>. When its views are positive, its \<open>avg_views\<close> is negative, each of the first
  \<open>2 ^ 51 + 1\<close> calls of \<^verbatim>\<open>fast_forward()\<close> lowers the views, and the views stay above
  \<open>- (2 ^ 1024)\<close>, inside the range of a \<^verbatim>\<open>float\<close>. When its views are zero, its
  \<open>avg_views\<close> is zero and \<^verbatim>\<open>fast_forward()\<close> leaves the views as they are.
\<close>

theorem future_upload_date:
  assumes "is_date TODAY" and "0 \<le> m" and "m < 2 ^ 971"
  shows "(\<forall>d. is_date d \<longrightarrow> ((\<exists>e. Video_init TODAY t m d = Inl e) \<longleftrightarrow> d = TODAY)) \<and>
     (\<forall>d. is_date d \<and> TODAY < d \<longrightarrow>
        (\<exists>v. Video_init TODAY t m d = Inr v \<and> days_up v < 0 \<and>
           (0 < m \<longrightarrow> avg_views v < 0 \<and>
              (\<forall>k \<le> 2 ^ 51. views (((\<lambda>w. fast_forward w 1) ^^ Suc k) v) <
                             views (((\<lambda>w. fast_forward w 1) ^^ k) v) \<and>
                           - (2 ^ 1024) < views (((\<lambda>w. fast_forward w 1) ^^ Suc k) v))) \<and>
           (m = 0 \<longrightarrow> avg_views v = 0 \<and> views (fast_forward v 1) = views v)))"
proof (intro conjI allI impI)
  fix d
  assume d: "is_date d"
  show "(\<exists>e. Video_init TODAY t m d = Inl e) \<longleftrightarrow> d = TODAY"
  proof (cases "d = TODAY")
    case True
    then show ?thesis
      by (simp add: Video_init_def int_truediv_def)
  next
    case False
    from Video_init_in_range [OF assms(1) d False assms(2,3)] False show ?thesis
      by simp
  qed
next
  fix d
  assume "is_date d \<and> TODAY < d"
  then have d: "is_date d" and lt: "TODAY < d" by simp_all
  define v where "v = \<lparr>title = t, views = of_int m, upload_date = d, days_up = TODAY - d,
          years_up = py_int (binary64 (of_int (TODAY - d) / of_int 365)),
          avg_views = binary64 (of_int m / of_int (TODAY - d))\<rparr>"
  from lt have "d \<noteq> TODAY" by simp
  from Video_init_in_range [OF assms(1) d this assms(2,3)]
  have i: "Video_init TODAY t m d = Inr v"
    by (simp only: v_def)
  have du: "days_up v < 0"
    using lt by (simp add: v_def)
  define G where "G = binary64 (of_int m / of_int (d - TODAY))"
  have g: "avg_views v = - G"
  proof -
    have "(of_int m :: rat) / of_int (TODAY - d) = - (of_int m / of_int (d - TODAY))"
      by (simp add: field_simps) (metis minus_diff_eq minus_divide_right of_int_diff)
    then show ?thesis
      by (simp only: v_def Video.simps G_def binary64_minus)
  qed
  have Gr: "binary64 G = G"
    by (simp add: G_def binary64_idem)
  have pos: "avg_views v < 0 \<and>
      (\<forall>k \<le> 2 ^ 51. views (((\<lambda>w. fast_forward w 1) ^^ Suc k) v) <
                     views (((\<lambda>w. fast_forward w 1) ^^ k) v) \<and>
                   - (2 ^ 1024) < views (((\<lambda>w. fast_forward w 1) ^^ Suc k) v))"
    if m: "0 < m"
  proof -
    have a: "0 < d - TODAY" "d - TODAY \<le> 2 ^ 22"
      using lt date_difference [OF assms(1) d] by simp_all
    from growth_at_least [OF m a] have Gl: "2 powi (ilog2 (of_int m) - 22) \<le> G"
      by (simp only: G_def)
    then have "0 < G"
      by (rule less_le_trans [rotated]) simp
    then have neg: "avg_views v < 0"
      by (simp add: g)
    define x where "x k = views (((\<lambda>w. fast_forward w 1) ^^ k) v)" for k
    have rec: "x (Suc k) = binary64 (binary64 (x k) - G)" for k
      by (simp add: x_def fast_forward_one fast_forward_iterate g binary64_minus Gr)
    have x0: "x 0 = of_int m"
      by (simp add: x_def v_def)
    have GM: "G \<le> 2 ^ 971"
    proof -
      have "(1::rat) \<le> of_int (d - TODAY)"
        using a(1) by (simp add: int_one_le_iff_zero_less)
      then have "(of_int m :: rat) * 1 \<le> of_int m * of_int (d - TODAY)"
        using m by (intro mult_left_mono) simp_all
      then have "(of_int m :: rat) / of_int (d - TODAY) \<le> of_int m"
        using a(1) by (simp add: field_simps)
      also have "\<dots> \<le> of_int (2 ^ 971)"
        using assms(3) by (simp only: of_int_le_iff)
      also have "\<dots> = 2 powi 971"
        by simp
      finally have "G \<le> binary64 (2 powi 971)"
        unfolding G_def by (rule binary64_mono)
      also have "\<dots> = 2 powi 971"
        by (rule binary64_power2)
      also have "\<dots> = 2 ^ 971"
        by simp
      finally show ?thesis .
    qed
    have "x (Suc k) < x k \<and> - (2 ^ 1024) < x (Suc k)" if "k \<le> 2 ^ 51" for k
    proof -
      have "x (Suc k) < x k \<and> - (of_nat (Suc k) * (2 * G)) \<le> x (Suc k)"
        using rec _ _ that
      proof (rule descent)
        show "0 < x 0" using m by (simp add: x0)
        show "2 powi (ilog2 (x 0) - 22) \<le> G" using Gl by (simp only: x0)
      qed
      moreover have "of_nat (Suc k) * (2 * G) < 2 ^ 1024"
      proof -
        have "(of_nat (Suc k) :: rat) \<le> of_nat (2 ^ 51 + 1)"
          using that by (simp only: of_nat_le_iff)
        then have "(of_nat (Suc k) :: rat) * (2 * G) \<le> of_nat (2 ^ 51 + 1) * (2 * 2 ^ 971)"
          using GM \<open>0 < G\<close> by (intro mult_mono) simp_all
        also have "\<dots> < 2 ^ 1024"
          by simp
        finally show ?thesis .
      qed
      ultimately have "x (Suc k) < x k" "- (of_nat (Suc k) * (2 * G)) \<le> x (Suc k)"
        "- (2 ^ 1024) < - (of_nat (Suc k) * (2 * G))"
        by (simp_all only: neg_less_iff_less)
      then show ?thesis
        by (intro conjI) (assumption, rule less_le_trans)
    qed
    with neg show ?thesis
      by (simp only: x_def) blast
  qed
  have zero: "avg_views v = 0 \<and> views (fast_forward v 1) = views v" if "m = 0"
    using that by (simp add: v_def fast_forward_def)
  from i du pos zero
  show "\<exists>v. Video_init TODAY t m d = Inr v \<and> days_up v < 0 \<and>
           (0 < m \<longrightarrow> avg_views v < 0 \<and>
              (\<forall>k \<le> 2 ^ 51. views (((\<lambda>w. fast_forward w 1) ^^ Suc k) v) <
                             views (((\<lambda>w. fast_forward w 1) ^^ k) v) \<and>
                           - (2 ^ 1024) < views (((\<lambda>w. fast_forward w 1) ^^ Suc k) v))) \<and>
           (m = 0 \<longrightarrow> avg_views v = 0 \<and> views (fast_forward v 1) = views v)"
    by (intro exI [of _ v]) simp
qed

theorem future_upload_date_witness:
  "is_date 1000 \<and> is_date 1002 \<and> (0::int) \<le> 6 \<and>
   (\<exists>v. Video_init 1000 ''F'' 6 1002 = Inr v \<and> days_up v = - 2 \<and> avg_views v = - 3 \<and>
        views v = 6 \<and> views (fast_forward v 1) = 3 \<and>
        views (fast_forward (fast_forward v 1) 1) = 0 \<and>
        views (fast_forward v 1) < views v \<and>
        views (fast_forward (fast_forward v 1) 1) < views (fast_forward v 1)) \<and>
   Video_init 1000 ''F'' 6 1000 = Inl ZeroDivisionError"
proof -
  have h: "is_date 1000" "(0::int) \<le> 6" "(6::int) < 2 ^ 971" and d: "is_date 1002" "is_date 1000"
    by (simp_all add: is_date_def)
  note claim = future_upload_date [OF h, of "''F''"]
  from claim d(2) have "\<exists>e. Video_init 1000 ''F'' 6 1000 = Inl e"
    by blast
  then have z: "Video_init 1000 ''F'' 6 1000 = Inl ZeroDivisionError"
    by (simp add: Video_init_def int_truediv_def)
  from claim d(1) obtain v where
    v: "Video_init 1000 ''F'' 6 1002 = Inr v" "days_up v < 0" "avg_views v < 0"
    and dec: "\<And>k. k \<le> 2 ^ 51 \<Longrightarrow>
                    views (((\<lambda>w. fast_forward w 1) ^^ Suc k) v) <
                    views (((\<lambda>w. fast_forward w 1) ^^ k) v)"
    by force
  from v(1) have e: "days_up v = - 2" "avg_views v = - 3" "views v = 6"
    "views (fast_forward v 1) = 3" "views (fast_forward (fast_forward v 1) 1) = 0"
    by (auto simp: Video_init_def int_truediv_in_range fast_forward_def)
  from dec [of 0] dec [of 1]
  have "views (fast_forward v 1) < views v"
    "views (fast_forward (fast_forward v 1) 1) < views (fast_forward v 1)"
    by simp_all
  with v(1) h d z e show ?thesis
    by (intro conjI exI [of _ v]) simp_all
qed

text \<open>
  The three conditions are needed. A video with no views that is uploaded a day after the
  reference date has \<open>avg_views = 0\<close> and keeps its views. With \<open>2 ^ 1100\<close> views the
  division of line 33 raises \<^verbatim>\<open>OverflowError\<close>, on a date other than the reference date.
  And a video with one view that is uploaded a day after the reference date loses a view
  with each of the first \<open>2 ^ 53 + 1\<close> calls, down to \<open>- (2 ^ 53)\<close>, where the next call
  changes nothing: \<open>- (2 ^ 53) - 1\<close> is rounded to \<open>- (2 ^ 53)\<close>.
\<close>

theorem future_upload_date_counterexample:
  "Video_init 1000 ''Z'' 0 1001 = Inr sample_Z \<and> days_up sample_Z < 0 \<and>
   \<not> avg_views sample_Z < 0 \<and> \<not> views (fast_forward sample_Z 1) < views sample_Z \<and>
   Video_init 1000 ''Z'' (2 ^ 1100) 1001 = Inl OverflowError \<and>
   Video_init 1000 ''Z'' 1 1001 = Inr sample_one \<and> avg_views sample_one < 0 \<and>
   \<not> views (((\<lambda>w. fast_forward w 1) ^^ Suc 9007199254740993) sample_one) <
     views (((\<lambda>w. fast_forward w 1) ^^ 9007199254740993) sample_one)"
proof -
  have z: "Video_init 1000 ''Z'' 0 1001 = Inr sample_Z \<and> days_up sample_Z < 0 \<and>
      \<not> avg_views sample_Z < 0 \<and> \<not> views (fast_forward sample_Z 1) < views sample_Z"
    by (simp add: Video_init_def int_truediv_in_range years_up_small sample_Z_def
        fast_forward_def)
  have o: "Video_init 1000 ''Z'' (2 ^ 1100) 1001 = Inl OverflowError"
    using overflow_example by (simp add: Video_init_def int_truediv_in_range)
  have l: "Video_init 1000 ''Z'' 1 1001 = Inr sample_one \<and> avg_views sample_one < 0"
    by (simp add: Video_init_def int_truediv_in_range years_up_small sample_one_def)
  from z o l lost_step show ?thesis
    by (simp only: less_irrefl not_False_eq_True simp_thms)
qed

section \<open>The error of the rounded sums\<close>

text \<open>
  Rounding to the nearest \<^verbatim>\<open>float\<close> changes a value by at most one part in \<open>2 ^ 53\<close>.
  With views and an average that are not negative, \<open>N\<close> calls of \<^verbatim>\<open>fast_forward()\<close>
  round \<open>N + 1\<close> times (the conversion of the views, an \<^verbatim>\<open>int\<close>, and \<open>N\<close> sums), and one
  call \<^verbatim>\<open>fast_forward(N)\<close> rounds the average at most three times (the conversion of
  \<open>N\<close>, the product, the sum).
\<close>

lemma round_half_even_error: "\<bar>of_int (round_half_even q) - q\<bar> \<le> 1 / 2"
proof -
  have "of_int \<lfloor>q\<rfloor> \<le> q" "q < of_int \<lfloor>q\<rfloor> + 1"
    by linarith+
  then show ?thesis
    unfolding round_half_even_def Let_def by (auto simp: abs_le_iff)
qed

lemma binary64_error:
  assumes "0 \<le> x"
  shows "x * (1 - 1 / 2 ^ 53) \<le> binary64 x \<and> binary64 x \<le> x * (1 + 1 / 2 ^ 53)"
proof (cases "x = 0")
  case True
  then show ?thesis by simp
next
  case False
  with assms have x: "0 < x" by simp
  define e where "e = ilog2 x"
  define u :: rat where "u = 2 powi (e - 52)"
  define q where "q = x / u"
  have u: "0 < u" by (simp add: u_def)
  have xq: "x = q * u" using u by (simp add: q_def)
  from ilog2_bounds [OF x] have "2 powi e \<le> x"
    by (simp add: e_def)
  moreover have "2 powi e = 2 ^ 52 * u"
    by (simp add: u_def power_int_diff)
  ultimately have ux: "u / 2 \<le> x / 2 ^ 53"
    by simp
  have R: "binary64 x = of_int (round_half_even q) * u"
    using x by (simp add: binary64_def Let_def e_def u_def q_def)
  have "binary64 x - x = (of_int (round_half_even q) - q) * u"
  proof -
    have "x = q * u" by (rule xq)
    then have "of_int (round_half_even q) * u - x = of_int (round_half_even q) * u - q * u"
      by (rule arg_cong)
    then show ?thesis
      unfolding R by (simp only: left_diff_distrib)
  qed
  then have "\<bar>binary64 x - x\<bar> = \<bar>of_int (round_half_even q) - q\<bar> * u"
    using u by (simp only: abs_mult abs_of_pos)
  also have "\<dots> \<le> 1 / 2 * u"
    using round_half_even_error [of q] u by (intro mult_right_mono) simp_all
  also have "\<dots> \<le> x / 2 ^ 53"
    using ux by simp
  finally have "\<bar>binary64 x - x\<bar> \<le> x / 2 ^ 53" .
  then have "binary64 x - x \<le> x / 2 ^ 53" and "x - binary64 x \<le> x / 2 ^ 53"
    by (simp_all only: abs_le_iff minus_diff_eq)
  then show ?thesis
    by (simp add: algebra_simps)
qed

lemma binary64_nonneg: "0 \<le> x \<Longrightarrow> 0 \<le> binary64 x"
  using binary64_pos [of x] by (cases "x = 0") (simp_all add: less_imp_le)

lemma rounded_step_bounds:
  fixes lo hi E g y :: rat
  assumes lo: "lo = 1 - 1 / 2 ^ 53" and hi: "hi = 1 + 1 / 2 ^ 53"
    and E: "0 \<le> E" and g: "0 \<le> g"
    and l: "E * lo ^ n \<le> y" and u: "y \<le> E * hi ^ n"
  shows "(E + g) * lo ^ Suc n \<le> binary64 (y + g) \<and> binary64 (y + g) \<le> (E + g) * hi ^ Suc n"
proof -
  have lo0: "0 \<le> lo" and lo1: "lo \<le> 1" and hi1: "1 \<le> hi"
    by (simp_all add: lo hi)
  have ln: "0 \<le> lo ^ n" "lo ^ n \<le> 1" and hn: "1 \<le> hi ^ n"
    using lo0 lo1 hi1 by (simp_all add: power_le_one one_le_power)
  have "0 \<le> E * lo ^ n"
    using E ln by simp
  with l have y: "0 \<le> y" by simp
  with g have s: "0 \<le> y + g" by simp
  have "g * lo ^ n \<le> g * 1"
    using g ln by (intro mult_left_mono) simp_all
  with l have 1: "(E + g) * lo ^ n \<le> y + g"
    by (simp add: algebra_simps)
  have "g * 1 \<le> g * hi ^ n"
    using g hn by (intro mult_left_mono) simp_all
  with u have 2: "y + g \<le> (E + g) * hi ^ n"
    by (simp add: algebra_simps)
  from binary64_error [OF s] have b: "(y + g) * lo \<le> binary64 (y + g)" "binary64 (y + g) \<le> (y + g) * hi"
    by (simp_all only: lo hi)
  have "(E + g) * lo ^ n * lo \<le> (y + g) * lo"
    using 1 lo0 by (rule mult_right_mono)
  with b(1) have A: "(E + g) * lo ^ Suc n \<le> binary64 (y + g)"
    by (simp only: power_Suc2 mult.assoc)
  have "0 \<le> hi" using hi1 by simp
  with 2 have "(y + g) * hi \<le> (E + g) * hi ^ n * hi"
    by (rule mult_right_mono)
  with b(2) have B: "binary64 (y + g) \<le> (E + g) * hi ^ Suc n"
    by (simp only: power_Suc2 mult.assoc)
  from A B show ?thesis ..
qed

lemma fast_forward_iterate_bounds:
  fixes lo hi :: rat
  assumes lo: "lo = 1 - 1 / 2 ^ 53" and hi: "hi = 1 + 1 / 2 ^ 53"
    and x: "0 \<le> views v" and g: "0 \<le> avg_views v"
    and r: "binary64 (avg_views v) = avg_views v"
  shows "(views v + avg_views v * of_nat (Suc k)) * lo ^ (Suc k + 1)
           \<le> views (((\<lambda>w. fast_forward w 1) ^^ Suc k) v) \<and>
         views (((\<lambda>w. fast_forward w 1) ^^ Suc k) v)
           \<le> (views v + avg_views v * of_nat (Suc k)) * hi ^ (Suc k + 1)"
proof (induction k)
  case 0
  from binary64_error [OF x] have "views v * lo ^ 1 \<le> binary64 (views v)"
    "binary64 (views v) \<le> views v * hi ^ 1"
    by (simp_all only: lo hi power_one_right)
  from rounded_step_bounds [OF lo hi x g this]
  show ?case
    by (simp add: fast_forward_one r)
next
  case (Suc k)
  let ?y = "views (((\<lambda>w. fast_forward w 1) ^^ Suc k) v)"
  let ?E = "views v + avg_views v * of_nat (Suc k)"
  have E: "0 \<le> ?E"
    using x g by simp
  from Suc.IH have "?E * lo ^ (Suc k + 1) \<le> ?y" "?y \<le> ?E * hi ^ (Suc k + 1)"
    by simp_all
  from rounded_step_bounds [OF lo hi E g this]
  have "(?E + avg_views v) * lo ^ Suc (Suc k + 1) \<le> binary64 (?y + avg_views v) \<and>
        binary64 (?y + avg_views v) \<le> (?E + avg_views v) * hi ^ Suc (Suc k + 1)" .
  moreover have "views (((\<lambda>w. fast_forward w 1) ^^ Suc (Suc k)) v) = binary64 (?y + avg_views v)"
  proof -
    have "views (((\<lambda>w. fast_forward w 1) ^^ Suc (Suc k)) v) =
        binary64 (binary64 ?y + binary64 (avg_views (((\<lambda>w. fast_forward w 1) ^^ Suc k) v)))"
      by (simp only: funpow.simps o_apply fast_forward_one)
    also have "binary64 ?y = ?y"
      by (rule fast_forward_iterate_rounded)
    also have "avg_views (((\<lambda>w. fast_forward w 1) ^^ Suc k) v) = avg_views v"
      by (rule fast_forward_iterate)
    finally show ?thesis
      by (simp only: r)
  qed
  moreover have "?E + avg_views v = views v + avg_views v * of_nat (Suc (Suc k))"
    by (simp add: algebra_simps)
  ultimately show ?case
    by (simp only: Suc_eq_plus1)
qed

lemma fast_forward_once_bounds:
  fixes lo hi :: rat
  assumes lo: "lo = 1 - 1 / 2 ^ 53" and hi: "hi = 1 + 1 / 2 ^ 53"
    and x: "0 \<le> views v" and g: "0 \<le> avg_views v"
  shows "(views v + avg_views v * of_nat N) * lo ^ 3 \<le> views (fast_forward v (int N)) \<and>
         views (fast_forward v (int N)) \<le> (views v + avg_views v * of_nat N) * hi ^ 3"
proof -
  have lo0: "0 \<le> lo" and lo1: "lo \<le> 1" and hi1: "1 \<le> hi" and hi0: "0 \<le> hi"
    by (simp_all add: lo hi)
  define n where "n = binary64 (of_nat N)"
  define p where "p = binary64 (avg_views v * n)"
  have N: "(0::rat) \<le> of_nat N" by simp
  from binary64_error [OF N] have n: "of_nat N * lo \<le> n" "n \<le> of_nat N * hi"
    by (simp_all only: lo hi n_def)
  have n0: "0 \<le> n"
    unfolding n_def by (rule binary64_nonneg) simp
  with g have gn: "0 \<le> avg_views v * n" by simp
  from binary64_error [OF gn] have p: "avg_views v * n * lo \<le> p" "p \<le> avg_views v * n * hi"
    by (simp_all only: lo hi p_def)
  have "avg_views v * (of_nat N * lo) * lo \<le> avg_views v * n * lo"
    using n(1) g lo0 by (intro mult_right_mono mult_left_mono)
  with p(1) have pl: "avg_views v * of_nat N * lo ^ 2 \<le> p"
    by (simp add: power2_eq_square algebra_simps)
  have "avg_views v * n * hi \<le> avg_views v * (of_nat N * hi) * hi"
    using n(2) g hi0 by (intro mult_right_mono mult_left_mono)
  with p(2) have pu: "p \<le> avg_views v * of_nat N * hi ^ 2"
    by (simp add: power2_eq_square algebra_simps)
  have p0: "0 \<le> p"
    unfolding p_def by (rule binary64_nonneg) (rule gn)
  from binary64_error [OF x] have b: "views v * lo \<le> binary64 (views v)"
    "binary64 (views v) \<le> views v * hi"
    by (simp_all only: lo hi)
  have "views v * lo * lo \<le> views v * lo * 1"
    using x lo0 lo1 by (intro mult_left_mono) simp_all
  with b(1) have xl: "views v * lo ^ 2 \<le> binary64 (views v)"
    by (simp add: power2_eq_square)
  have "views v * hi * 1 \<le> views v * hi * hi"
    using x hi0 hi1 by (intro mult_left_mono) simp_all
  with b(2) have xu: "binary64 (views v) \<le> views v * hi ^ 2"
    by (simp add: power2_eq_square)
  have b0: "0 \<le> binary64 (views v)"
    by (rule binary64_nonneg) (rule x)
  let ?E = "views v + avg_views v * of_nat N"
  let ?s = "binary64 (views v) + p"
  have s0: "0 \<le> ?s" using b0 p0 by simp
  from xl pl have sl: "?E * lo ^ 2 \<le> ?s"
    by (simp add: algebra_simps)
  from xu pu have su: "?s \<le> ?E * hi ^ 2"
    by (simp add: algebra_simps)
  from binary64_error [OF s0] have f: "?s * lo \<le> binary64 ?s" "binary64 ?s \<le> ?s * hi"
    by (simp_all only: lo hi)
  have "?E * lo ^ 2 * lo \<le> ?s * lo"
    using sl lo0 by (rule mult_right_mono)
  with f(1) have A: "?E * lo ^ 3 \<le> binary64 ?s"
    by (simp add: power3_eq_cube power2_eq_square algebra_simps)
  have "?s * hi \<le> ?E * hi ^ 2 * hi"
    using su hi0 by (rule mult_right_mono)
  with f(2) have B: "binary64 ?s \<le> ?E * hi ^ 3"
    by (simp add: power3_eq_cube power2_eq_square algebra_simps)
  have "views (fast_forward v (int N)) = binary64 ?s"
    by (simp add: fast_forward_def p_def n_def)
  with A B show ?thesis by simp
qed

lemma power_growth_bound:
  fixes x :: rat
  assumes "0 \<le> x"
  shows "(1 + x) ^ n * (1 - of_nat n * x) \<le> 1"
proof (induction n)
  case 0
  show ?case by simp
next
  case (Suc n)
  have "(1 + x) * (1 - of_nat (Suc n) * x) = 1 - of_nat n * x - of_nat (Suc n) * x * x"
    by (simp add: algebra_simps)
  also have "\<dots> \<le> 1 - of_nat n * x"
    using assms by simp
  finally have "(1 + x) ^ n * ((1 + x) * (1 - of_nat (Suc n) * x)) \<le> (1 + x) ^ n * (1 - of_nat n * x)"
    using assms by (intro mult_left_mono) simp_all
  also note Suc.IH
  finally show ?case
    by (simp only: power_Suc2 mult.assoc)
qed

lemma growth_factor_small:
  fixes hi :: rat
  assumes hi: "hi = 1 + 1 / 2 ^ 53" and n: "n \<le> 2 ^ 52"
  shows "hi ^ n \<le> 2"
proof -
  define x :: rat where "x = 1 / 2 ^ 53"
  have x: "0 \<le> x" "hi = 1 + x"
    by (simp_all add: x_def hi)
  have "(of_nat n :: rat) \<le> of_nat (2 ^ 52)"
    using n by (simp only: of_nat_le_iff)
  then have "(of_nat n :: rat) * x \<le> of_nat (2 ^ 52) * x"
    using x(1) by (rule mult_right_mono)
  also have "\<dots> = 1 / 2"
    by (simp add: x_def)
  finally have h: "1 / 2 \<le> 1 - of_nat n * x"
    by simp
  have p: "0 \<le> hi ^ n"
    using x by simp
  have "hi ^ n * (1 / 2) \<le> hi ^ n * (1 - of_nat n * x)"
    using h p by (rule mult_left_mono)
  also have "\<dots> \<le> 1"
    unfolding x(2) by (rule power_growth_bound) (rule x(1))
  finally show ?thesis
    by simp
qed

lemma Video_init_fields:
  assumes "Video_init TODAY t m d = Inr v"
  shows "views v = of_int m" "avg_views v = binary64 (of_int m / of_int (TODAY - d))"
  using assms
  by (auto simp: Video_init_def int_truediv_def Let_def split: sum.splits if_splits)

lemma growth_exact:
  assumes m: "views v = of_int m" and gr: "binary64 (avg_views v) = avg_views v"
    and n: "binary64 (of_nat N) = of_nat N"
    and p: "binary64 (avg_views v * of_nat N) = avg_views v * of_nat N"
    and e: "\<forall>k \<le> N. binary64 (of_int m + avg_views v * of_nat k) =
            of_int m + avg_views v * of_nat k"
  shows "views (((\<lambda>w. fast_forward w 1) ^^ N) v) = of_int m + avg_views v * of_nat N"
    and "views (fast_forward v (int N)) = of_int m + avg_views v * of_nat N"
proof -
  have exact: "binary64 (of_int m + avg_views v * of_nat k) = of_int m + avg_views v * of_nat k"
    if "k \<le> N" for k
    using e that by blast
  have steps: "views (((\<lambda>w. fast_forward w 1) ^^ k) v) = of_int m + avg_views v * of_nat k"
    if "k \<le> N" for k
    using that
  proof (induction k)
    case 0
    then show ?case by (simp add: m)
  next
    case (Suc k)
    then have k: "k \<le> N" by simp
    have "views (((\<lambda>w. fast_forward w 1) ^^ Suc k) v) =
        binary64 (binary64 (of_int m + avg_views v * of_nat k) + binary64 (avg_views v))"
      by (simp add: fast_forward_one fast_forward_iterate Suc.IH [OF k])
    also have "\<dots> = binary64 (of_int m + avg_views v * of_nat k + avg_views v)"
      by (simp only: exact [OF k] gr)
    also have "\<dots> = binary64 (of_int m + avg_views v * of_nat (Suc k))"
      by (simp add: algebra_simps)
    also have "\<dots> = of_int m + avg_views v * of_nat (Suc k)"
      by (rule exact [OF Suc.prems])
    finally show ?case .
  qed
  from steps [of N] show "views (((\<lambda>w. fast_forward w 1) ^^ N) v) = of_int m + avg_views v * of_nat N"
    by simp
  have m0: "binary64 (of_int m) = of_int m"
    using exact [of 0] by simp
  have "views (fast_forward v (int N)) =
      binary64 (binary64 (of_int m) + binary64 (avg_views v * of_nat N))"
    by (simp add: fast_forward_def m n)
  also have "\<dots> = binary64 (of_int m + avg_views v * of_nat N)"
    by (simp only: m0 p)
  also have "\<dots> = of_int m + avg_views v * of_nat N"
    by (rule exact) simp
  finally show "views (fast_forward v (int N)) = of_int m + avg_views v * of_nat N" .
qed

lemma growth_in_range:
  fixes hi :: rat
  assumes hi: "hi = 1 + 1 / 2 ^ 53"
    and g: "avg_views v = binary64 (of_int m / of_int a)"
    and a: "0 < a" and m: "0 \<le> m" "m < 2 ^ 971" and N: "N \<le> 2 ^ 51"
    and j: "j \<le> 2 ^ 51 + 1"
    and y: "y \<le> (of_int m + avg_views v * of_nat N) * hi ^ j"
  shows "y < 2 ^ 1024"
proof -
  define M :: rat where "M = 2 ^ 971"
  have hi0: "0 \<le> hi" and hi1: "1 \<le> hi"
    by (simp_all add: hi)
  have "m \<le> 2 ^ 971 - 1"
    using m(2) by simp
  then have "(of_int m :: rat) \<le> of_int (2 ^ 971 - 1)"
    by (simp only: of_int_le_iff)
  then have mM: "of_int m \<le> M - 1"
    by (simp add: M_def)
  have m0: "(0::rat) \<le> of_int m"
    using m(1) by simp
  have a1: "(1::rat) \<le> of_int a"
    using a by (simp add: int_one_le_iff_zero_less)
  then have "(of_int m :: rat) * 1 \<le> of_int m * of_int a"
    using m0 by (intro mult_left_mono)
  then have q: "of_int m / of_int a \<le> (of_int m :: rat)"
    using a by (simp add: field_simps)
  have q0: "(0::rat) \<le> of_int m / of_int a"
    using m0 a by simp
  from binary64_error [OF q0] have "avg_views v \<le> of_int m / of_int a * hi"
    by (simp only: g hi)
  also have "\<dots> \<le> of_int m * hi"
    using q hi0 by (rule mult_right_mono)
  also have "\<dots> \<le> (M - 1) * hi"
    using mM hi0 by (rule mult_right_mono)
  finally have gM: "avg_views v \<le> (M - 1) * hi" .
  have g0: "0 \<le> avg_views v"
    unfolding g by (rule binary64_nonneg) (rule q0)
  have "(of_nat N :: rat) \<le> of_nat (2 ^ 51)"
    using N by (simp only: of_nat_le_iff)
  then have NN: "(of_nat N :: rat) \<le> 2 ^ 51"
    by simp
  have M1: "(0::rat) \<le> M - 1"
    by (simp add: M_def)
  have "avg_views v * of_nat N \<le> (M - 1) * hi * 2 ^ 51"
    using gM NN g0 by (intro mult_mono) simp_all
  moreover have "of_int m \<le> (M - 1) * hi"
    using mM hi1 M1 m0 mult_mono [of "of_int m" "M - 1" 1 hi] by simp
  ultimately have E: "of_int m + avg_views v * of_nat N \<le> (M - 1) * hi * (2 ^ 51 + 1)"
    by (simp add: algebra_simps)
  have hj: "0 \<le> hi ^ j" using hi0 by simp
  have "y \<le> (of_int m + avg_views v * of_nat N) * hi ^ j"
    by (rule y)
  also have "\<dots> \<le> (M - 1) * hi * (2 ^ 51 + 1) * hi ^ j"
    using E hj by (rule mult_right_mono)
  also have "\<dots> = (M - 1) * (2 ^ 51 + 1) * hi ^ Suc j"
    by simp
  also have "\<dots> \<le> (M - 1) * (2 ^ 51 + 1) * 2"
  proof (rule mult_left_mono)
    show "hi ^ Suc j \<le> 2"
      using j by (intro growth_factor_small [OF hi]) simp
    show "0 \<le> (M - 1) * (2 ^ 51 + 1)"
      using M1 by simp
  qed
  also have "\<dots> < 2 ^ 1024"
    by (simp add: M_def)
  finally show ?thesis .
qed

lemma rounded_third: "binary64 (1 / 3) = 6004799503160661 / 18014398509481984"
  using binary64_eval [of "- 2" "1 / 3"]
  by (simp add: round_half_even_numeral)

lemma rounded_third_again:
  "binary64 (6004799503160661 / 18014398509481984) = 6004799503160661 / 18014398509481984"
  using binary64_idem [of "1 / 3"] by (simp only: rounded_third)

lemma rounded_sum_1:
  "binary64 (24019198012642645 / 18014398509481984) = 6004799503160661 / 4503599627370496"
  using binary64_eval [of 0 "24019198012642645 / 18014398509481984"]
  by (simp add: round_half_even_numeral)

lemma rounded_sum_1_again:
  "binary64 (6004799503160661 / 4503599627370496) = 6004799503160661 / 4503599627370496"
  using binary64_idem [of "24019198012642645 / 18014398509481984"]
  by (simp only: rounded_sum_1)

lemma rounded_sum_2:
  "binary64 (30023997515803305 / 18014398509481984) = 3752999689475413 / 2251799813685248"
  using binary64_eval [of 0 "30023997515803305 / 18014398509481984"]
  by (simp add: round_half_even_numeral)

lemma rounded_sum_2_again:
  "binary64 (3752999689475413 / 2251799813685248) = 3752999689475413 / 2251799813685248"
  using binary64_idem [of "30023997515803305 / 18014398509481984"]
  by (simp only: rounded_sum_2)

lemma rounded_sum_3:
  "binary64 (36028797018963965 / 18014398509481984) = 9007199254740991 / 4503599627370496"
  using binary64_eval [of 0 "36028797018963965 / 18014398509481984"]
  by (simp add: round_half_even_numeral)

lemma rounded_product:
  "binary64 (18014398509481983 / 18014398509481984) = 1"
  using binary64_eval [of "- 1" "18014398509481983 / 18014398509481984"]
  by (simp add: round_half_even_numeral)

lemmas rounded = rounded_third rounded_third_again rounded_sum_1 rounded_sum_1_again
  rounded_sum_2 rounded_sum_2_again rounded_sum_3 rounded_product

lemma Video_init_sample_third: "Video_init 1000 ''T'' 1 997 = Inr sample_third"
  by (simp add: Video_init_def int_truediv_in_range years_up_small sample_third_def rounded)

lemma sample_third_three_calls:
  "views (fast_forward (fast_forward (fast_forward sample_third 1) 1) 1) =
     9007199254740991 / 4503599627370496"
  by (simp add: sample_third_def fast_forward_def rounded)

lemma sample_third_one_call: "views (fast_forward sample_third 3) = 2"
  by (simp add: sample_third_def fast_forward_def rounded)

lemma floor_numeral_quotient:
  "\<lfloor>numeral a / numeral b :: rat\<rfloor> = numeral a div numeral b"
  using floor_divide_of_int_eq [of "numeral a" "numeral b", where ?'a = rat] by simp

section \<open>Growth by the day\<close>

text \<open>
  C1. \<^verbatim>\<open>fast_forward\<close> never changes \<open>avg_views\<close>, whatever the video and the number of
  days, and the constructor sets it to the rounded quotient of the views by \<open>days_up\<close>.
  For a video constructed with views \<open>m \<ge> 0\<close> and an upload date before the reference
  date, and for every \<open>N > 0\<close>, with \<open>E = m + avg_views * N\<close>: the views after \<open>N\<close> calls
  of \<^verbatim>\<open>fast_forward()\<close> lie between \<open>E * (1 - 1 / 2 ^ 53) ^ (N + 1)\<close> and
  \<open>E * (1 + 1 / 2 ^ 53) ^ (N + 1)\<close>, and the views after the one call \<^verbatim>\<open>fast_forward(N)\<close>
  between \<open>E * (1 - 1 / 2 ^ 53) ^ 3\<close> and \<open>E * (1 + 1 / 2 ^ 53) ^ 3\<close>. When \<open>N\<close>, the
  product of the average with \<open>N\<close> and the sums of the views with the first \<open>N\<close>
  multiples of the average are \<^verbatim>\<open>float\<close>s (no rounding takes place), both are \<open>E\<close>.
  With \<open>m < 2 ^ 971\<close> and \<open>N \<le> 2 ^ 51\<close> both are below \<open>2 ^ 1024\<close>, inside the range of a
  \<^verbatim>\<open>float\<close>.
\<close>

theorem linear_growth_rounded:
  "(\<forall>v days. avg_views (fast_forward v days) = avg_views v) \<and>
   (\<forall>v k. avg_views (((\<lambda>w. fast_forward w 1) ^^ k) v) = avg_views v) \<and>
   (\<forall>TODAY t m d v. Video_init TODAY t m d = Inr v \<longrightarrow>
      views v = of_int m \<and> avg_views v = binary64 (of_int m / of_int (TODAY - d))) \<and>
   (\<forall>TODAY t m d v N. Video_init TODAY t m d = Inr v \<and> d < TODAY \<and> 0 \<le> m \<and> 0 < N \<longrightarrow>
      (of_int m + avg_views v * of_nat N) * (1 - 1 / 2 ^ 53) ^ (N + 1)
         \<le> views (((\<lambda>w. fast_forward w 1) ^^ N) v) \<and>
      views (((\<lambda>w. fast_forward w 1) ^^ N) v)
         \<le> (of_int m + avg_views v * of_nat N) * (1 + 1 / 2 ^ 53) ^ (N + 1) \<and>
      (of_int m + avg_views v * of_nat N) * (1 - 1 / 2 ^ 53) ^ 3
         \<le> views (fast_forward v (int N)) \<and>
      views (fast_forward v (int N))
         \<le> (of_int m + avg_views v * of_nat N) * (1 + 1 / 2 ^ 53) ^ 3 \<and>
      (binary64 (of_nat N) = of_nat N \<and>
       binary64 (avg_views v * of_nat N) = avg_views v * of_nat N \<and>
       (\<forall>k \<le> N. binary64 (of_int m + avg_views v * of_nat k) =
                  of_int m + avg_views v * of_nat k) \<longrightarrow>
         views (((\<lambda>w. fast_forward w 1) ^^ N) v) = of_int m + avg_views v * of_nat N \<and>
         views (fast_forward v (int N)) = of_int m + avg_views v * of_nat N) \<and>
      (m < 2 ^ 971 \<and> N \<le> 2 ^ 51 \<longrightarrow>
         views (((\<lambda>w. fast_forward w 1) ^^ N) v) < 2 ^ 1024 \<and>
         views (fast_forward v (int N)) < 2 ^ 1024))"
proof (intro conjI allI impI; (elim conjE)?)
  fix v :: Video and days :: int
  show "avg_views (fast_forward v days) = avg_views v"
    by (rule fast_forward_same)
next
  fix v :: Video and k :: nat
  show "avg_views (((\<lambda>w. fast_forward w 1) ^^ k) v) = avg_views v"
    by (rule fast_forward_iterate)
next
  fix TODAY t m d v
  assume "Video_init TODAY t m d = Inr v"
  then show "views v = rat_of_int m" "avg_views v = binary64 (of_int m / of_int (TODAY - d))"
    by (rule Video_init_fields)+
next
  fix TODAY :: int and t :: string and m d :: int and v :: Video and N :: nat
  assume init: "Video_init TODAY t m d = Inr v" and d: "d < TODAY" and m: "0 \<le> m" and N: "0 < N"
  define lo :: rat where "lo = 1 - 1 / 2 ^ 53"
  define hi :: rat where "hi = 1 + 1 / 2 ^ 53"
  note f = Video_init_fields [OF init]
  have a: "0 < TODAY - d"
    using d by simp
  have x: "0 \<le> views v"
    using m by (simp add: f(1))
  have q0: "(0::rat) \<le> of_int m / of_int (TODAY - d)"
    using m a by simp
  have g: "0 \<le> avg_views v"
    unfolding f(2) by (rule binary64_nonneg) (rule q0)
  have r: "binary64 (avg_views v) = avg_views v"
    unfolding f(2) by (rule binary64_idem)
  from N obtain k where k: "N = Suc k"
    by (cases N) simp_all
  from fast_forward_iterate_bounds [OF lo_def hi_def x g r, of k]
  have many: "(of_int m + avg_views v * of_nat N) * lo ^ (N + 1)
           \<le> views (((\<lambda>w. fast_forward w 1) ^^ N) v)"
      "views (((\<lambda>w. fast_forward w 1) ^^ N) v)
           \<le> (of_int m + avg_views v * of_nat N) * hi ^ (N + 1)"
    by (simp_all only: k f(1))
  from fast_forward_once_bounds [OF lo_def hi_def x g, of N]
  have once: "(of_int m + avg_views v * of_nat N) * lo ^ 3 \<le> views (fast_forward v (int N))"
      "views (fast_forward v (int N)) \<le> (of_int m + avg_views v * of_nat N) * hi ^ 3"
    by (simp_all only: f(1))
  from many(1) show "(of_int m + avg_views v * of_nat N) * (1 - 1 / 2 ^ 53) ^ (N + 1)
         \<le> views (((\<lambda>w. fast_forward w 1) ^^ N) v)"
    by (simp only: lo_def)
  from many(2) show "views (((\<lambda>w. fast_forward w 1) ^^ N) v)
         \<le> (of_int m + avg_views v * of_nat N) * (1 + 1 / 2 ^ 53) ^ (N + 1)"
    by (simp only: hi_def)
  from once(1) show "(of_int m + avg_views v * of_nat N) * (1 - 1 / 2 ^ 53) ^ 3
         \<le> views (fast_forward v (int N))"
    by (simp only: lo_def)
  from once(2) show "views (fast_forward v (int N))
         \<le> (of_int m + avg_views v * of_nat N) * (1 + 1 / 2 ^ 53) ^ 3"
    by (simp only: hi_def)
  {
    assume e: "binary64 (of_nat N) = (of_nat N :: rat)"
      "binary64 (avg_views v * of_nat N) = avg_views v * of_nat N"
      "\<forall>k \<le> N. binary64 (of_int m + avg_views v * of_nat k) =
                  of_int m + avg_views v * of_nat k"
    from growth_exact [OF f(1) r e]
    show "views (((\<lambda>w. fast_forward w 1) ^^ N) v) = of_int m + avg_views v * of_nat N"
      and "views (fast_forward v (int N)) = of_int m + avg_views v * of_nat N" .
  }
  {
    assume s: "m < 2 ^ 971" "N \<le> 2 ^ 51"
    from s(2) have j: "N + 1 \<le> 2 ^ 51 + 1" by simp
    have j3: "(3::nat) \<le> 2 ^ 51 + 1" by simp
    from growth_in_range [OF hi_def f(2) a m s j many(2)]
    show "views (((\<lambda>w. fast_forward w 1) ^^ N) v) < 2 ^ 1024" .
    from growth_in_range [OF hi_def f(2) a m s j3 once(2)]
    show "views (fast_forward v (int N)) < 2 ^ 1024" .
  }
qed

theorem linear_growth_rounded_witness:
  "Video_init 1000 ''A'' 100 900 = Inr sample_A \<and> (900::int) < 1000 \<and> (0::int) \<le> 100 \<and>
   (0::nat) < 3 \<and> avg_views sample_A = 1 \<and>
   avg_views (fast_forward (fast_forward (fast_forward sample_A 1) 1) 1) = 1 \<and>
   views (fast_forward (fast_forward (fast_forward sample_A 1) 1) 1) = 103 \<and>
   views (fast_forward sample_A 3) = 103 \<and>
   Video_init 1000 ''T'' 1 997 = Inr sample_third \<and> (997::int) < 1000 \<and>
   views (fast_forward (fast_forward (fast_forward sample_third 1) 1) 1) =
     9007199254740991 / 4503599627370496 \<and>
   (1 + avg_views sample_third * 3) * (1 - 1 / 2 ^ 53) ^ 4
     \<le> (9007199254740991 / 4503599627370496 :: rat) \<and>
   views (fast_forward sample_third 3) = 2 \<and>
   (2 :: rat) \<le> (1 + avg_views sample_third * 3) * (1 + 1 / 2 ^ 53) ^ 3"
proof -
  note claim = linear_growth_rounded [THEN conjunct2, THEN conjunct2, THEN conjunct2, rule_format]
  have a: "avg_views sample_A = 1"
    by (simp add: sample_A_def)
  have hA: "Video_init 1000 ''A'' 100 900 = Inr sample_A \<and> (900::int) < 1000 \<and> (0::int) \<le> 100 \<and>
      (0::nat) < 3"
    using Video_init_sample_A by simp
  have e: "binary64 (of_nat 3) = (of_nat 3 :: rat) \<and>
      binary64 (avg_views sample_A * of_nat 3) = avg_views sample_A * of_nat 3 \<and>
      (\<forall>k \<le> 3. binary64 (of_int 100 + avg_views sample_A * of_nat k) =
                  of_int 100 + avg_views sample_A * of_nat k)"
  proof (intro conjI allI impI)
    fix k :: nat
    assume "k \<le> 3"
    then have "\<bar>100 + int k\<bar> \<le> 2 ^ 53" by simp
    from binary64_of_int [OF this] show "binary64 (of_int 100 + avg_views sample_A * of_nat k) =
            of_int 100 + avg_views sample_A * of_nat k"
      by (simp add: a)
  qed (simp_all add: a)
  from claim [OF hA] e
  have A: "views (((\<lambda>w. fast_forward w 1) ^^ 3) sample_A) = of_int 100 + avg_views sample_A * of_nat 3"
      "views (fast_forward sample_A (int 3)) = of_int 100 + avg_views sample_A * of_nat 3"
    by blast+
  have c: "avg_views (((\<lambda>w. fast_forward w 1) ^^ 3) sample_A) = avg_views sample_A"
    using linear_growth_rounded by blast
  have hT: "Video_init 1000 ''T'' 1 997 = Inr sample_third \<and> (997::int) < 1000 \<and> (0::int) \<le> 1 \<and>
      (0::nat) < 3"
    using Video_init_sample_third by simp
  from claim [OF hT]
  have T: "(of_int 1 + avg_views sample_third * of_nat 3) * (1 - 1 / 2 ^ 53) ^ (3 + 1)
         \<le> views (((\<lambda>w. fast_forward w 1) ^^ 3) sample_third)"
      "views (fast_forward sample_third (int 3))
         \<le> (of_int 1 + avg_views sample_third * of_nat 3) * (1 + 1 / 2 ^ 53) ^ 3"
    by blast+
  have i: "((\<lambda>w. fast_forward w 1) ^^ 3) v = fast_forward (fast_forward (fast_forward v 1) 1) 1"
    for v
    by (simp add: eval_nat_numeral)
  have T1: "(1 + avg_views sample_third * 3) * (1 - 1 / 2 ^ 53) ^ 4
     \<le> (9007199254740991 / 4503599627370496 :: rat)"
    using T(1) unfolding i sample_third_three_calls by simp
  have T2: "(2 :: rat) \<le> (1 + avg_views sample_third * 3) * (1 + 1 / 2 ^ 53) ^ 3"
    using T(2) by (simp add: sample_third_one_call)
  from A c have A': "views (fast_forward (fast_forward (fast_forward sample_A 1) 1) 1) = 103"
      "views (fast_forward sample_A 3) = 103"
      "avg_views (fast_forward (fast_forward (fast_forward sample_A 1) 1) 1) = 1"
    unfolding i by (simp_all add: a)
  show ?thesis
    using hA hT a A' T1 T2 sample_third_three_calls sample_third_one_call
    by (intro conjI) simp_all
qed

text \<open>
  The two are not equal in general, and neither is \<open>E\<close>: for a video with one view that
  was uploaded three days before the reference date, three calls of \<^verbatim>\<open>fast_forward()\<close>
  give 1.9999999999999998, printed as 1, and \<^verbatim>\<open>fast_forward(3)\<close> gives 2.0, printed as 2.
\<close>

theorem linear_growth_counterexample:
  "Video_init 1000 ''T'' 1 997 = Inr sample_third \<and> (997::int) < 1000 \<and>
   views (fast_forward (fast_forward (fast_forward sample_third 1) 1) 1) =
     9007199254740991 / 4503599627370496 \<and>
   views (fast_forward sample_third 3) = 2 \<and>
   views (fast_forward (fast_forward (fast_forward sample_third 1) 1) 1) \<noteq>
     views (fast_forward sample_third 3) \<and>
   1 + avg_views sample_third * 3 = 36028797018963967 / 18014398509481984 \<and>
   views (fast_forward (fast_forward (fast_forward sample_third 1) 1) 1) \<noteq>
     1 + avg_views sample_third * 3 \<and>
   views (fast_forward sample_third 3) \<noteq> 1 + avg_views sample_third * 3 \<and>
   Video_str (fast_forward (fast_forward (fast_forward sample_third 1) 1) 1) = (''T'', 1) \<and>
   Video_str (fast_forward sample_third 3) = (''T'', 2)"
proof -
  have t: "title (fast_forward (fast_forward (fast_forward sample_third 1) 1) 1) = ''T''"
    "title (fast_forward sample_third 3) = ''T''"
    by (simp_all add: fast_forward_same sample_third_def)
  have g: "avg_views sample_third = 6004799503160661 / 18014398509481984"
    by (simp add: sample_third_def)
  show ?thesis
    unfolding Video_str_def sample_third_three_calls sample_third_one_call t g
    using Video_init_sample_third by (simp add: py_int_def floor_numeral_quotient)
qed

end
